theory Spec2Isabelle
  imports Main "HOL-Library.Multiset"
begin

section \<open>Package singleflight: \<^verbatim>\<open>Group.Do\<close>\<close>

subsection \<open>Data model\<close>

text \<open>
  The struct \<^verbatim>\<open>call\<close>.  The wait group is its counter; \<^verbatim>\<open>val\<close> is an
  \<^verbatim>\<open>interface{}\<close> and \<^verbatim>\<open>err\<close> an \<^verbatim>\<open>error\<close>, whose zero value nil is \<open>None\<close>.
\<close>

record ('v, 'e) call =
  wg :: nat
  val :: "'v option"
  err :: "'e option"

text \<open>
  The struct \<^verbatim>\<open>Group\<close>: the mutex is locked or not, the map is nil (\<open>None\<close>) until
  the first call.  A \<^verbatim>\<open>*call\<close> is a handle into the store of call records.
\<close>

type_synonym cid = nat

record Group =
  mu :: bool
  m :: "(string \<rightharpoonup> cid) option"

text \<open>
  The function a caller passes to \<^verbatim>\<open>Do\<close> returns a value and an error and acts on a
  world \<open>'w\<close> outside the group.  It is a function of HOL: it returns, it does not
  panic, and it does not call \<^verbatim>\<open>Do\<close> itself.
\<close>

type_synonym ('v, 'e, 'w) fn = "'w \<Rightarrow> ('v option \<times> 'e option) \<times> 'w"

text \<open>
  Goroutines are numbered; each makes one call \<^verbatim>\<open>g.Do(key, fn)\<close>, with the arguments
  the program \<open>prog\<close> gives it.
\<close>

type_synonym tid = nat

type_synonym ('v, 'e, 'w) prog = "tid \<Rightarrow> string \<times> ('v, 'e, 'w) fn"

text \<open>
  Where a goroutine is in its call.  The positions are the statements of \<^verbatim>\<open>Do\<close> at
  which another goroutine can be observed or can observe this one: the two
  \<^verbatim>\<open>g.mu.Lock()\<close>, the two blocks run with the lock held (each up to and including its
  \<^verbatim>\<open>Unlock\<close>), \<^verbatim>\<open>c.wg.Wait()\<close>, the call of \<^verbatim>\<open>fn\<close> with the assignment of its
  results, \<^verbatim>\<open>c.wg.Done()\<close>, and the \<^verbatim>\<open>return c.val, c.err\<close> of either path.
  \<open>Returned c v e\<close> keeps the record the call used and the pair it returned.
\<close>

datatype ('v, 'e) pc =
    NotCalled
  | AtLock1
  | InCrit1
  | AtWait cid
  | AtFn cid
  | AtDone cid
  | AtLock2 cid
  | InCrit2 cid
  | AtReturn cid
  | Returned cid "'v option" "'e option"
  | Panicked

text \<open>
  The state of the program: the group, the store of call records (\<^verbatim>\<open>new(call)\<close> takes
  the next handle, \<open>length (mem s)\<close>), the position of every goroutine, the world, and
  the log of the executions of \<^verbatim>\<open>fn\<close> so far: who ran it, for which record, and what it
  returned.
\<close>

record ('v, 'e, 'w) sys =
  grp :: Group
  mem :: "('v, 'e) call list"
  thr :: "tid \<Rightarrow> ('v, 'e) pc"
  env :: 'w
  fn_log :: "(tid \<times> cid \<times> 'v option \<times> 'e option) list"

definition sys0 :: "'w \<Rightarrow> ('v, 'e, 'w) sys" where
  "sys0 w = \<lparr>grp = \<lparr>mu = False, m = None\<rparr>, mem = [], thr = (\<lambda>t. NotCalled), env = w, fn_log = []\<rparr>"

subsection \<open>The steps of \<^verbatim>\<open>Do\<close>\<close>

text \<open>\<^verbatim>\<open>c := new(call); c.wg.Add(1)\<close>.\<close>

definition new_call :: "('v, 'e) call" where
  "new_call = \<lparr>wg = 0 + 1, val = None, err = None\<rparr>"

text \<open>\<^verbatim>\<open>c.val, c.err = fn()\<close>, given what \<^verbatim>\<open>fn\<close> returned.\<close>

definition set_result ::
  "cid \<Rightarrow> 'v option \<Rightarrow> 'e option \<Rightarrow> ('v, 'e) call list \<Rightarrow> ('v, 'e) call list" where
  "set_result c v e cs = cs[c := (cs ! c)\<lparr>val := v, err := e\<rparr>]"

text \<open>\<^verbatim>\<open>c.wg.Done()\<close> on a counter above zero.\<close>

definition wg_Done :: "cid \<Rightarrow> ('v, 'e) call list \<Rightarrow> ('v, 'e) call list" where
  "wg_Done c cs = cs[c := (cs ! c)\<lparr>wg := wg (cs ! c) - 1\<rparr>]"

text \<open>
  One step of goroutine \<open>t\<close>; \<open>None\<close> when \<open>t\<close> cannot move: it waits for the lock or
  for the wait group, or its call is over.

  The statements between \<^verbatim>\<open>Lock\<close> and \<^verbatim>\<open>Unlock\<close> are one step: \<^verbatim>\<open>g.m\<close> is read and
  written only there, and the call record made there is not yet known to anyone else.
  \<^verbatim>\<open>Unlock\<close> of an unlocked mutex and \<^verbatim>\<open>Done\<close> on a counter that is zero stop the
  program; the goroutine is then \<open>Panicked\<close>.
\<close>

definition step ::
  "('v, 'e, 'w) prog \<Rightarrow> tid \<Rightarrow> ('v, 'e, 'w) sys \<Rightarrow> ('v, 'e, 'w) sys option" where
  "step prog t s =
     (case thr s t of
        NotCalled \<Rightarrow> Some (s\<lparr>thr := (thr s)(t := AtLock1)\<rparr>)
      | AtLock1 \<Rightarrow>
          if mu (grp s) then None
          else Some (s\<lparr>grp := (grp s)\<lparr>mu := True\<rparr>, thr := (thr s)(t := InCrit1)\<rparr>)
      | InCrit1 \<Rightarrow>
          if \<not> mu (grp s) then Some (s\<lparr>thr := (thr s)(t := Panicked)\<rparr>)
          else
            (let mp = (case m (grp s) of None \<Rightarrow> Map.empty | Some mp \<Rightarrow> mp)
             in case mp (fst (prog t)) of
                  Some c \<Rightarrow>
                    Some (s\<lparr>grp := \<lparr>mu = False, m = Some mp\<rparr>, thr := (thr s)(t := AtWait c)\<rparr>)
                | None \<Rightarrow>
                    (let c = length (mem s)
                     in Some (s\<lparr>grp := \<lparr>mu = False, m = Some (mp(fst (prog t) \<mapsto> c))\<rparr>,
                                 mem := mem s @ [new_call],
                                 thr := (thr s)(t := AtFn c)\<rparr>)))
      | AtWait c \<Rightarrow>
          if wg (mem s ! c) = 0 then Some (s\<lparr>thr := (thr s)(t := AtReturn c)\<rparr>) else None
      | AtFn c \<Rightarrow>
          (case snd (prog t) (env s) of
             ((v, e), w) \<Rightarrow>
               Some (s\<lparr>mem := set_result c v e (mem s), env := w,
                        fn_log := fn_log s @ [(t, c, v, e)],
                        thr := (thr s)(t := AtDone c)\<rparr>))
      | AtDone c \<Rightarrow>
          if wg (mem s ! c) = 0 then Some (s\<lparr>thr := (thr s)(t := Panicked)\<rparr>)
          else Some (s\<lparr>mem := wg_Done c (mem s), thr := (thr s)(t := AtLock2 c)\<rparr>)
      | AtLock2 c \<Rightarrow>
          if mu (grp s) then None
          else Some (s\<lparr>grp := (grp s)\<lparr>mu := True\<rparr>, thr := (thr s)(t := InCrit2 c)\<rparr>)
      | InCrit2 c \<Rightarrow>
          if \<not> mu (grp s) then Some (s\<lparr>thr := (thr s)(t := Panicked)\<rparr>)
          else Some (s\<lparr>grp := \<lparr>mu = False,
                                 m = (case m (grp s) of
                                        None \<Rightarrow> None
                                      | Some mp \<Rightarrow> Some (mp(fst (prog t) := None)))\<rparr>,
                        thr := (thr s)(t := AtReturn c)\<rparr>)
      | AtReturn c \<Rightarrow>
          Some (s\<lparr>thr := (thr s)(t := Returned c (val (mem s ! c)) (err (mem s ! c)))\<rparr>)
      | Returned c v e \<Rightarrow> None
      | Panicked \<Rightarrow> None)"

text \<open>
  A schedule is the list of the goroutines that move, in order; it cannot be run when it
  names a goroutine that cannot move.
\<close>

fun exec_sched ::
  "('v, 'e, 'w) prog \<Rightarrow> tid list \<Rightarrow> ('v, 'e, 'w) sys \<Rightarrow> ('v, 'e, 'w) sys option" where
  "exec_sched prog [] s = Some s"
| "exec_sched prog (t # ts) s =
     (case step prog t s of None \<Rightarrow> None | Some s' \<Rightarrow> exec_sched prog ts s')"

text \<open>
  \<^verbatim>\<open>Do\<close> as a sequential function: goroutine \<open>t\<close> runs alone until its call has
  returned.  \<open>None\<close> when it does not return: it blocks for ever, or panics.  No path
  through \<^verbatim>\<open>Do\<close> has more than eight steps.
\<close>

fun run_alone ::
  "nat \<Rightarrow> ('v, 'e, 'w) prog \<Rightarrow> tid \<Rightarrow> ('v, 'e, 'w) sys \<Rightarrow> ('v, 'e, 'w) sys option" where
  "run_alone 0 prog t s = None"
| "run_alone (Suc n) prog t s =
     (case thr s t of
        Returned c v e \<Rightarrow> Some s
      | _ \<Rightarrow> (case step prog t s of None \<Rightarrow> None | Some s' \<Rightarrow> run_alone n prog t s'))"

definition Do :: "('v, 'e, 'w) prog \<Rightarrow> tid \<Rightarrow> ('v, 'e, 'w) sys \<Rightarrow> ('v, 'e, 'w) sys option" where
  "Do prog t s = run_alone 9 prog t s"

subsection \<open>Observations\<close>

text \<open>The keys that have a call record registered.\<close>

definition registered :: "('v, 'e, 'w) sys \<Rightarrow> string set" where
  "registered s = (case m (grp s) of None \<Rightarrow> {} | Some mp \<Rightarrow> dom mp)"

text \<open>The executions of \<^verbatim>\<open>fn\<close> made for the call record \<open>c\<close>.\<close>

definition runs_for ::
  "cid \<Rightarrow> ('v, 'e, 'w) sys \<Rightarrow> (tid \<times> cid \<times> 'v option \<times> 'e option) list" where
  "runs_for c s = filter (\<lambda>r. fst (snd r) = c) (fn_log s)"

text \<open>A call is in progress from the moment \<^verbatim>\<open>Do\<close> is entered until it has returned.\<close>

fun in_progress :: "('v, 'e) pc \<Rightarrow> bool" where
  "in_progress NotCalled = False"
| "in_progress (Returned c v e) = False"
| "in_progress Panicked = False"
| "in_progress p = True"

text \<open>The call record a position refers to.\<close>

fun holds :: "('v, 'e) pc \<Rightarrow> cid \<Rightarrow> bool" where
  "holds (AtWait c) d = (c = d)"
| "holds (AtFn c) d = (c = d)"
| "holds (AtDone c) d = (c = d)"
| "holds (AtLock2 c) d = (c = d)"
| "holds (InCrit2 c) d = (c = d)"
| "holds (AtReturn c) d = (c = d)"
| "holds (Returned c v e) d = (c = d)"
| "holds p d = False"

text \<open>The goroutine that made the record has not yet passed \<^verbatim>\<open>c.wg.Done()\<close>.\<close>

fun busy :: "('v, 'e) pc \<Rightarrow> cid \<Rightarrow> bool" where
  "busy (AtFn c) d = (c = d)"
| "busy (AtDone c) d = (c = d)"
| "busy p d = False"

text \<open>The goroutine holds the lock.\<close>

fun incrit :: "('v, 'e) pc \<Rightarrow> bool" where
  "incrit InCrit1 = True"
| "incrit (InCrit2 c) = True"
| "incrit p = False"

text \<open>
  The goroutine has left \<^verbatim>\<open>c.wg.Done()\<close> or \<^verbatim>\<open>c.wg.Wait()\<close> behind and will only
  read the record.
\<close>

fun past :: "('v, 'e) pc \<Rightarrow> cid \<Rightarrow> bool" where
  "past (AtLock2 c) d = (c = d)"
| "past (InCrit2 c) d = (c = d)"
| "past (AtReturn c) d = (c = d)"
| "past (Returned c v e) d = (c = d)"
| "past p d = False"

text \<open>
  The invariant of the reachable states.  Handles are allocated; the lock is held by the
  one goroutine that is inside a locked block; nobody has panicked; a record has at most
  one goroutine before \<^verbatim>\<open>Done\<close>, its counter is 1 exactly as long as there is one,
  \<^verbatim>\<open>fn\<close> has run for it once unless that goroutine still is about to call it, and
  that run wrote the fields of the record; whoever is past the wait group finds nobody
  before \<^verbatim>\<open>Done\<close>; and a returned pair is the pair in the record.
\<close>

definition inv_bounds :: "('v, 'e, 'w) sys \<Rightarrow> bool" where
  "inv_bounds s =
     ((\<forall>t c. holds (thr s t) c \<longrightarrow> c < length (mem s)) \<and>
      (\<forall>mp k c. m (grp s) = Some mp \<and> mp k = Some c \<longrightarrow> c < length (mem s)) \<and>
      (\<forall>r\<in>set (fn_log s). fst (snd r) < length (mem s)))"

definition inv_mutex :: "('v, 'e, 'w) sys \<Rightarrow> bool" where
  "inv_mutex s =
     ((\<forall>t. incrit (thr s t) \<longrightarrow> mu (grp s)) \<and>
      (\<forall>t u. incrit (thr s t) \<and> incrit (thr s u) \<longrightarrow> t = u) \<and>
      (\<forall>t. thr s t \<noteq> Panicked))"

definition inv_record :: "('v, 'e, 'w) sys \<Rightarrow> bool" where
  "inv_record s =
     (\<forall>c < length (mem s).
        (\<forall>t u. busy (thr s t) c \<and> busy (thr s u) c \<longrightarrow> t = u) \<and>
        wg (mem s ! c) = (if \<exists>t. busy (thr s t) c then 1 else 0) \<and>
        (if \<exists>t. thr s t = AtFn c then runs_for c s = []
         else \<exists>t0. runs_for c s = [(t0, c, val (mem s ! c), err (mem s ! c))]))"

definition inv_past :: "('v, 'e, 'w) sys \<Rightarrow> bool" where
  "inv_past s =
     ((\<forall>t u c. past (thr s t) c \<longrightarrow> \<not> busy (thr s u) c) \<and>
      (\<forall>t c v e. thr s t = Returned c v e \<longrightarrow> v = val (mem s ! c) \<and> e = err (mem s ! c)))"

definition inv_sys :: "('v, 'e, 'w) sys \<Rightarrow> bool" where
  "inv_sys s = (inv_bounds s \<and> inv_mutex s \<and> inv_record s \<and> inv_past s)"

text \<open>
  The goroutine made the record and has not yet removed it from the map.
\<close>

fun owns :: "('v, 'e) pc \<Rightarrow> cid \<Rightarrow> bool" where
  "owns (AtFn c) d = (c = d)"
| "owns (AtDone c) d = (c = d)"
| "owns (AtLock2 c) d = (c = d)"
| "owns (InCrit2 c) d = (c = d)"
| "owns p d = False"

text \<open>
  The part of the invariant that speaks of the arguments of the calls.  A locked mutex has
  a goroutine inside a locked block; a record in the map is there under the key of a
  goroutine that owns it; the goroutines that refer to one record called \<^verbatim>\<open>Do\<close> with
  one key, the key the record is registered under; and an execution in the log was made
  by a goroutine that refers to the record, with the function it passed.
\<close>

definition inv_lock :: "('v, 'e, 'w) sys \<Rightarrow> bool" where
  "inv_lock s = (mu (grp s) \<longrightarrow> (\<exists>t. incrit (thr s t)))"

definition inv_owner :: "('v, 'e, 'w) prog \<Rightarrow> ('v, 'e, 'w) sys \<Rightarrow> bool" where
  "inv_owner prog s =
     (\<forall>mp k c. m (grp s) = Some mp \<and> mp k = Some c \<longrightarrow>
        (\<exists>t. fst (prog t) = k \<and> owns (thr s t) c))"

definition inv_key :: "('v, 'e, 'w) prog \<Rightarrow> ('v, 'e, 'w) sys \<Rightarrow> bool" where
  "inv_key prog s =
     ((\<forall>t u c. holds (thr s t) c \<and> holds (thr s u) c \<longrightarrow> fst (prog t) = fst (prog u)) \<and>
      (\<forall>mp k c t. m (grp s) = Some mp \<and> mp k = Some c \<and> holds (thr s t) c \<longrightarrow>
         fst (prog t) = k))"

definition inv_log :: "('v, 'e, 'w) prog \<Rightarrow> ('v, 'e, 'w) sys \<Rightarrow> bool" where
  "inv_log prog s =
     (\<forall>r\<in>set (fn_log s).
        holds (thr s (fst r)) (fst (snd r)) \<and>
        (\<exists>w. fst (snd (prog (fst r)) w) = snd (snd r)))"

text \<open>
  A record stays registered, under the key of the goroutine that made it, for as long as
  that goroutine owns it; and a record has one owner.
\<close>

definition inv_reg :: "('v, 'e, 'w) prog \<Rightarrow> ('v, 'e, 'w) sys \<Rightarrow> bool" where
  "inv_reg prog s =
     ((\<forall>t c. owns (thr s t) c \<longrightarrow>
         (\<exists>mp. m (grp s) = Some mp \<and> mp (fst (prog t)) = Some c)) \<and>
      (\<forall>a b c. owns (thr s a) c \<and> owns (thr s b) c \<longrightarrow> a = b))"

definition inv_prog :: "('v, 'e, 'w) prog \<Rightarrow> ('v, 'e, 'w) sys \<Rightarrow> bool" where
  "inv_prog prog s =
     (inv_lock s \<and> inv_owner prog s \<and> inv_key prog s \<and> inv_log prog s \<and> inv_reg prog s)"

text \<open>How many steps a call can still take, at most.\<close>

fun steps_left :: "('v, 'e) pc \<Rightarrow> nat" where
  "steps_left NotCalled = 8"
| "steps_left AtLock1 = 7"
| "steps_left InCrit1 = 6"
| "steps_left (AtFn c) = 5"
| "steps_left (AtDone c) = 4"
| "steps_left (AtLock2 c) = 3"
| "steps_left (InCrit2 c) = 2"
| "steps_left (AtWait c) = 2"
| "steps_left (AtReturn c) = 1"
| "steps_left (Returned c v e) = 0"
| "steps_left Panicked = 0"

subsection \<open>The programs of the examples\<close>

text \<open>
  Every goroutine calls \<^verbatim>\<open>Do("k", fn)\<close> with the same \<^verbatim>\<open>fn\<close>, which increments a
  counter and returns its new value and no error.
\<close>

definition count_fn :: "(nat, string, nat) fn" where
  "count_fn w = ((Some (Suc w), None), Suc w)"

definition count_prog :: "(nat, string, nat) prog" where
  "count_prog t = (''k'', count_fn)"

text \<open>
  Goroutine 0 passes a function that fails, every other one a function that succeeds;
  the world counts the executions.
\<close>

definition fail_fn :: "(nat, string, nat) fn" where
  "fail_fn w = ((None, Some ''boom''), Suc w)"

definition fail_first_prog :: "(nat, string, nat) prog" where
  "fail_first_prog t = (''k'', if t = 0 then fail_fn else count_fn)"

text \<open>What the two goroutines 0 and 1 and the world look like.\<close>

definition view2 ::
  "('v, 'e, 'w) sys option \<Rightarrow> (('v, 'e) pc \<times> ('v, 'e) pc \<times> 'w \<times> nat) option" where
  "view2 r = (case r of None \<Rightarrow> None | Some s \<Rightarrow> Some (thr s 0, thr s 1, env s, length (fn_log s)))"

section \<open>Package lru: the cache of \<^verbatim>\<open>src/lru/lru.go\<close>\<close>

subsection \<open>Data model\<close>

text \<open>
  A run-time panic of the Go program is a value of the model.  The two panics the code of
  the package could raise are a method call on a nil \<^verbatim>\<open>*list.List\<close> and a write to a
  nil map.
\<close>

datatype panic = NilPointerDereference | AssignmentToNilMap

text \<open>
  A \<^verbatim>\<open>*list.Element\<close> is a handle into the store.  The element's \<^verbatim>\<open>Value\<close> is a
  \<^verbatim>\<open>*entry\<close> that no other object points to, so the store maps the handle of an element
  directly to its entry.
\<close>

type_synonym elem = nat

record ('k, 'v) entry =
  key :: 'k
  val :: 'v

text \<open>
  The struct \<^verbatim>\<open>Cache\<close>.  \<^verbatim>\<open>OnEvicted\<close> is an optional callback; its effect on the
  rest of the program is a transformer of a world \<open>'w\<close> outside the cache (a callback
  that calls back into the cache it is evicted from is not modelled).  A nil pointer and a
  nil map are \<open>None\<close>.  The list \<^verbatim>\<open>ll\<close> is the sequence of its elements, front
  first.

  \<^verbatim>\<open>MaxEntries\<close> is a Go \<^verbatim>\<open>int\<close>.  The code only compares it, with 0 and with the
  length of the list, so it is an \<open>int\<close> here; it can be negative.  A \<^verbatim>\<open>Key\<close> is a
  value that Go can compare and on which \<^verbatim>\<open>==\<close> is equality, as the comment on
  \<^verbatim>\<open>Key\<close> asks; the keys of the map are compared by the equality of \<open>'k\<close>.
\<close>

record ('k, 'v, 'w) Cache =
  MaxEntries :: int
  OnEvicted :: "('k \<Rightarrow> 'v \<Rightarrow> 'w \<Rightarrow> 'w) option"
  ll :: "elem list option"
  cache :: "('k \<rightharpoonup> elem) option"

text \<open>
  The state a method runs in: the receiver \<^verbatim>\<open>c\<close>, the store of the entries (a new
  element takes the next free handle, \<open>length (heap s)\<close>), and the world the callback
  acts on.
\<close>

record ('k, 'v, 'w) state =
  self :: "('k, 'v, 'w) Cache"
  heap :: "('k, 'v) entry list"
  world :: 'w

subsection \<open>The methods of \<^verbatim>\<open>container/list\<close> that the cache calls\<close>

text \<open>
  \<^verbatim>\<open>container/list\<close> is Go's library, modelled from its documentation: a list is
  the sequence of its elements, \<^verbatim>\<open>PushFront\<close> puts a new element first,
  \<^verbatim>\<open>MoveToFront\<close> and \<^verbatim>\<open>Remove\<close> leave the list as it is when the element is not
  one of its elements, \<^verbatim>\<open>Back\<close> is nil on an empty list.

  Every method is modelled as dereferencing its receiver, so that a call on a nil list is a
  panic.  (Go's \<^verbatim>\<open>MoveToFront\<close> and \<^verbatim>\<open>Remove\<close> compare the element's list with the
  receiver before they touch it, and so return from a call on a nil list whose element
  belongs to another list.  The cache makes and clears \<^verbatim>\<open>ll\<close> and \<^verbatim>\<open>cache\<close>
  together and looks at the list only when the map is not nil, so no method of the cache
  reaches such a call: see \<open>wf\<close> and \<open>exec_inv\<close>.)
\<close>

definition list_New :: "elem list option" where
  "list_New = Some []"

fun list_Len :: "elem list option \<Rightarrow> panic + int" where
  "list_Len None = Inl NilPointerDereference"
| "list_Len (Some xs) = Inr (int (length xs))"

fun list_Back :: "elem list option \<Rightarrow> panic + elem option" where
  "list_Back None = Inl NilPointerDereference"
| "list_Back (Some []) = Inr None"
| "list_Back (Some (x # xs)) = Inr (Some (last (x # xs)))"

fun list_PushFront :: "elem \<Rightarrow> elem list option \<Rightarrow> panic + elem list option" where
  "list_PushFront e None = Inl NilPointerDereference"
| "list_PushFront e (Some xs) = Inr (Some (e # xs))"

fun list_MoveToFront :: "elem \<Rightarrow> elem list option \<Rightarrow> panic + elem list option" where
  "list_MoveToFront e None = Inl NilPointerDereference"
| "list_MoveToFront e (Some xs) = Inr (Some (if e \<in> set xs then e # remove1 e xs else xs))"

fun list_Remove :: "elem \<Rightarrow> elem list option \<Rightarrow> panic + elem list option" where
  "list_Remove e None = Inl NilPointerDereference"
| "list_Remove e (Some xs) = Inr (Some (remove1 e xs))"

subsection \<open>The methods of \<^verbatim>\<open>Cache\<close>\<close>

definition New :: "int \<Rightarrow> ('k, 'v, 'w) Cache" where
  "New maxEntries =
     \<lparr>MaxEntries = maxEntries, OnEvicted = None, ll = list_New, cache = Some Map.empty\<rparr>"

text \<open>\<^verbatim>\<open>delete(mp, k)\<close> on a nil map does nothing.\<close>

definition map_delete :: "'k \<Rightarrow> ('k \<rightharpoonup> elem) option \<Rightarrow> ('k \<rightharpoonup> elem) option" where
  "map_delete k mo = (case mo of None \<Rightarrow> None | Some mp \<Rightarrow> Some (mp(k := None)))"

definition removeElement ::
  "elem \<Rightarrow> ('k, 'v, 'w) state \<Rightarrow> panic + ('k, 'v, 'w) state" where
  "removeElement e s =
     (case list_Remove e (ll (self s)) of
        Inl p \<Rightarrow> Inl p
      | Inr l \<Rightarrow>
          let kv = heap s ! e;
              c = (self s)\<lparr>ll := l, cache := map_delete (key kv) (cache (self s))\<rparr>
          in (case OnEvicted c of
                None \<Rightarrow> Inr (s\<lparr>self := c\<rparr>)
              | Some f \<Rightarrow> Inr (s\<lparr>self := c, world := f (key kv) (val kv) (world s)\<rparr>)))"

definition RemoveOldest :: "('k, 'v, 'w) state \<Rightarrow> panic + ('k, 'v, 'w) state" where
  "RemoveOldest s =
     (if cache (self s) = None then Inr s
      else case list_Back (ll (self s)) of
             Inl p \<Rightarrow> Inl p
           | Inr None \<Rightarrow> Inr s
           | Inr (Some ele) \<Rightarrow> removeElement ele s)"

definition Remove :: "'k \<Rightarrow> ('k, 'v, 'w) state \<Rightarrow> panic + ('k, 'v, 'w) state" where
  "Remove k s =
     (case cache (self s) of
        None \<Rightarrow> Inr s
      | Some mp \<Rightarrow>
          (case mp k of
             Some ele \<Rightarrow> removeElement ele s
           | None \<Rightarrow> Inr s))"

text \<open>
  \<^verbatim>\<open>Get\<close> returns \<^verbatim>\<open>(value, ok)\<close>; the zero value of \<^verbatim>\<open>interface{}\<close> is
  \<open>None\<close>.
\<close>

definition Get ::
  "'k \<Rightarrow> ('k, 'v, 'w) state \<Rightarrow> panic + ('v option \<times> bool) \<times> ('k, 'v, 'w) state" where
  "Get k s =
     (case cache (self s) of
        None \<Rightarrow> Inr ((None, False), s)
      | Some mp \<Rightarrow>
          (case mp k of
             Some ele \<Rightarrow>
               (case list_MoveToFront ele (ll (self s)) of
                  Inl p \<Rightarrow> Inl p
                | Inr l \<Rightarrow> Inr ((Some (val (heap s ! ele)), True), s\<lparr>self := (self s)\<lparr>ll := l\<rparr>\<rparr>))
           | None \<Rightarrow> Inr ((None, False), s)))"

text \<open>
  \<^verbatim>\<open>Add\<close> makes the map and the list when the map is nil, so the write
  \<^verbatim>\<open>c.cache[key] = ele\<close> never meets a nil map; the branch of the model for that
  write on \<open>None\<close> is the panic Go would raise.
\<close>

definition Add :: "'k \<Rightarrow> 'v \<Rightarrow> ('k, 'v, 'w) state \<Rightarrow> panic + ('k, 'v, 'w) state" where
  "Add k v s =
     (let c = (if cache (self s) = None
               then (self s)\<lparr>cache := Some Map.empty, ll := list_New\<rparr> else self s)
      in case cache c of
           None \<Rightarrow> Inl AssignmentToNilMap
         | Some mp \<Rightarrow>
             (case mp k of
                Some ee \<Rightarrow>
                  (case list_MoveToFront ee (ll c) of
                     Inl p \<Rightarrow> Inl p
                   | Inr l \<Rightarrow>
                       Inr (s\<lparr>self := c\<lparr>ll := l\<rparr>,
                              heap := (heap s)[ee := (heap s ! ee)\<lparr>val := v\<rparr>]\<rparr>))
              | None \<Rightarrow>
                  (let ele = length (heap s);
                       h = heap s @ [\<lparr>key = k, val = v\<rparr>]
                   in case list_PushFront ele (ll c) of
                        Inl p \<Rightarrow> Inl p
                      | Inr l \<Rightarrow>
                          (let s' = s\<lparr>self := c\<lparr>ll := l, cache := Some (mp(k \<mapsto> ele))\<rparr>,
                                      heap := h\<rparr>
                           in case list_Len l of
                                Inl p \<Rightarrow> Inl p
                              | Inr n \<Rightarrow>
                                  if MaxEntries c \<noteq> 0 \<and> n > MaxEntries c
                                  then RemoveOldest s' else Inr s'))))"

definition Len :: "('k, 'v, 'w) state \<Rightarrow> panic + int" where
  "Len s = (if cache (self s) = None then Inr 0 else list_Len (ll (self s)))"

text \<open>
  \<^verbatim>\<open>Clear\<close> ranges over the map, and Go leaves the order of that iteration open.  The
  order is the argument \<open>ks\<close>: the keys of the map in the order the loop visits them
  (\<open>range_order\<close> below says that \<open>ks\<close> is such an enumeration).  Ranging over a nil
  map runs the body zero times.
\<close>

definition range_order :: "('k \<rightharpoonup> elem) option \<Rightarrow> 'k list \<Rightarrow> bool" where
  "range_order mo ks =
     (case mo of None \<Rightarrow> ks = [] | Some mp \<Rightarrow> distinct ks \<and> set ks = dom mp)"

definition Clear :: "'k list \<Rightarrow> ('k, 'v, 'w) state \<Rightarrow> panic + ('k, 'v, 'w) state" where
  "Clear ks s =
     (let w = (case OnEvicted (self s) of
                 None \<Rightarrow> world s
               | Some f \<Rightarrow>
                   (case cache (self s) of
                      None \<Rightarrow> world s
                    | Some mp \<Rightarrow>
                        fold (\<lambda>k w. case mp k of
                                      None \<Rightarrow> w
                                    | Some e \<Rightarrow>
                                        f (key (heap s ! e)) (val (heap s ! e)) w)
                          ks (world s)))
      in Inr (s\<lparr>self := (self s)\<lparr>ll := None, cache := None\<rparr>, world := w\<rparr>))"

subsection \<open>States, observations and the representation invariant\<close>

text \<open>
  A program holds a cache it made with \<^verbatim>\<open>New\<close> or as the zero value
  \<^verbatim>\<open>Cache{}\<close>, and may set the two exported fields.
\<close>

definition zero_Cache :: "('k, 'v, 'w) Cache" where
  "zero_Cache = \<lparr>MaxEntries = 0, OnEvicted = None, ll = None, cache = None\<rparr>"

definition init :: "('k, 'v, 'w) Cache \<Rightarrow> 'w \<Rightarrow> ('k, 'v, 'w) state" where
  "init c w = \<lparr>self = c, heap = [], world = w\<rparr>"

text \<open>The entries in recency order, front (most recently used) first.\<close>

definition entries :: "('k, 'v, 'w) state \<Rightarrow> ('k, 'v) entry list" where
  "entries s = (case ll (self s) of None \<Rightarrow> [] | Some xs \<Rightarrow> map (\<lambda>e. heap s ! e) xs)"

text \<open>The keys of the lookup mapping.\<close>

definition keys :: "('k, 'v, 'w) state \<Rightarrow> 'k set" where
  "keys s = (case cache (self s) of None \<Rightarrow> {} | Some mp \<Rightarrow> dom mp)"

text \<open>The value the lookup mapping leads to from a key.\<close>

definition lookup :: "('k, 'v, 'w) state \<Rightarrow> 'k \<Rightarrow> 'v option" where
  "lookup s k =
     (case cache (self s) of
        None \<Rightarrow> None
      | Some mp \<Rightarrow> (case mp k of None \<Rightarrow> None | Some e \<Rightarrow> Some (val (heap s ! e))))"

text \<open>A callback that records each of its invocations, in order, in the world.\<close>

definition record_call :: "'k \<Rightarrow> 'v \<Rightarrow> ('k \<times> 'v) list \<Rightarrow> ('k \<times> 'v) list" where
  "record_call k v w = w @ [(k, v)]"

text \<open>
  The invariant of the two unexported fields: both are nil or neither is; every element of
  the list is allocated; the keys of the entries in the list are distinct; and the map takes
  exactly the key of each entry in the list to the element that holds it.
\<close>

definition wf :: "('k, 'v, 'w) state \<Rightarrow> bool" where
  "wf s =
     (case ll (self s) of
        None \<Rightarrow> cache (self s) = None
      | Some xs \<Rightarrow>
          (case cache (self s) of
             None \<Rightarrow> False
           | Some mp \<Rightarrow>
               list_all (\<lambda>e. e < length (heap s)) xs \<and>
               distinct (map (\<lambda>e. key (heap s ! e)) xs) \<and>
               mp = map_of (map (\<lambda>e. (key (heap s ! e), e)) xs)))"

text \<open>\<^verbatim>\<open>Add\<close> immediately followed by \<^verbatim>\<open>Get\<close> of the same key: what \<^verbatim>\<open>Get\<close> returns.\<close>

definition Add_Get :: "'k \<Rightarrow> 'v \<Rightarrow> ('k, 'v, 'w) state \<Rightarrow> panic + ('v option \<times> bool)" where
  "Add_Get k v s =
     (case Add k v s of
        Inl p \<Rightarrow> Inl p
      | Inr s' \<Rightarrow> (case Get k s' of Inl p \<Rightarrow> Inl p | Inr (r, s'') \<Rightarrow> Inr r))"

text \<open>What a caller sees of a state: the entries in recency order and the world.\<close>

definition observe ::
  "panic + ('k, 'v, 'w) state \<Rightarrow> panic + (('k, 'v) entry list \<times> 'w)" where
  "observe r = (case r of Inl p \<Rightarrow> Inl p | Inr s \<Rightarrow> Inr (entries s, world s))"

text \<open>The public operations, to speak of any one of them.\<close>

datatype ('k, 'v) op =
  OpAdd 'k 'v | OpGet 'k | OpRemove 'k | OpRemoveOldest | OpLen | OpClear "'k list"

fun exec :: "('k, 'v) op \<Rightarrow> ('k, 'v, 'w) state \<Rightarrow> panic + ('k, 'v, 'w) state" where
  "exec (OpAdd k v) s = Add k v s"
| "exec (OpGet k) s = (case Get k s of Inl p \<Rightarrow> Inl p | Inr (r, s') \<Rightarrow> Inr s')"
| "exec (OpRemove k) s = Remove k s"
| "exec OpRemoveOldest s = RemoveOldest s"
| "exec OpLen s = (case Len s of Inl p \<Rightarrow> Inl p | Inr n \<Rightarrow> Inr s)"
| "exec (OpClear ks) s = Clear ks s"

fun run :: "('k, 'v) op list \<Rightarrow> ('k, 'v, 'w) state \<Rightarrow> panic + ('k, 'v, 'w) state" where
  "run [] s = Inr s"
| "run (x # xs) s = (case exec x s of Inl p \<Rightarrow> Inl p | Inr s' \<Rightarrow> run xs s')"

subsection \<open>The cache of the eviction example\<close>

text \<open>
  \<^verbatim>\<open>New(2)\<close> with a recording callback, and the state it is in after
  \<^verbatim>\<open>Add("a", 1); Add("b", 2)\<close>.
\<close>

definition cache2 :: "(string, nat, (string \<times> nat) list) Cache" where
  "cache2 = (New 2)\<lparr>OnEvicted := Some record_call\<rparr>"

definition st_ab :: "(string, nat, (string \<times> nat) list) state" where
  "st_ab =
     \<lparr>self = \<lparr>MaxEntries = 2, OnEvicted = Some record_call,
              ll = Some [1, 0], cache = Some [''a'' \<mapsto> 0, ''b'' \<mapsto> 1]\<rparr>,
      heap = [\<lparr>key = ''a'', val = 1\<rparr>, \<lparr>key = ''b'', val = 2\<rparr>],
      world = []\<rparr>"

text \<open>What \<^verbatim>\<open>Len\<close> returns after one operation.\<close>

definition Len_after :: "('k, 'v) op \<Rightarrow> ('k, 'v, 'w) state \<Rightarrow> panic + int" where
  "Len_after x s = (case exec x s of Inl p \<Rightarrow> Inl p | Inr s' \<Rightarrow> Len s')"

text \<open>
  The cache \<^verbatim>\<open>New(0)\<close> after \<^verbatim>\<open>Add("a", 1); Add("b", 2); Add("c", 3)\<close> and the
  assignment \<^verbatim>\<open>c.MaxEntries = 1\<close> to the exported field.
\<close>

definition st_over :: "(string, nat, unit) state" where
  "st_over =
     \<lparr>self = \<lparr>MaxEntries = 1, OnEvicted = None,
              ll = Some [2, 1, 0], cache = Some [''a'' \<mapsto> 0, ''b'' \<mapsto> 1, ''c'' \<mapsto> 2]\<rparr>,
      heap = [\<lparr>key = ''a'', val = 1\<rparr>, \<lparr>key = ''b'', val = 2\<rparr>, \<lparr>key = ''c'', val = 3\<rparr>],
      world = ()\<rparr>"

text \<open>The zero value \<^verbatim>\<open>Cache{}\<close> before any call.\<close>

definition st_zero :: "(string, nat, unit) state" where
  "st_zero = init zero_Cache ()"

section \<open>Package lru: proofs\<close>

subsection \<open>The lookup mapping as an index of the list\<close>

lemma map_eqI_Some:
  assumes "\<And>k e. m1 k = Some e \<longleftrightarrow> m2 k = Some e"
  shows "m1 = m2"
proof
  fix k
  show "m1 k = m2 k"
  proof (cases "m1 k")
    case None
    show ?thesis
    proof (cases "m2 k")
      case None
      with \<open>m1 k = None\<close> show ?thesis by simp
    next
      case (Some e)
      then have "m1 k = Some e" using assms by blast
      with Some show ?thesis by simp
    qed
  next
    case (Some e)
    with assms show ?thesis by simp
  qed
qed

lemma index_lookup_iff:
  assumes "distinct (map f xs)"
  shows "map_of (map (\<lambda>e. (f e, e)) xs) k = Some e \<longleftrightarrow> e \<in> set xs \<and> f e = k"
proof -
  have "distinct (map fst (map (\<lambda>e. (f e, e)) xs))"
    using assms by (simp add: comp_def)
  then show ?thesis by (auto simp: map_of_eq_Some_iff)
qed

lemma distinct_map_remove1:
  assumes "distinct (map f xs)"
  shows "distinct (map f (remove1 e xs))"
proof -
  from assms have "distinct xs" and "inj_on f (set xs)" by (simp_all add: distinct_map)
  moreover have "set (remove1 e xs) \<subseteq> set xs" by (rule set_remove1_subset)
  ultimately show ?thesis
    by (simp add: distinct_map inj_on_subset)
qed

lemma index_remove1:
  assumes d: "distinct (map f xs)" and e: "e \<in> set xs"
  shows "(map_of (map (\<lambda>x. (f x, x)) xs))(f e := None) = map_of (map (\<lambda>x. (f x, x)) (remove1 e xs))"
proof (rule map_eqI_Some)
  fix k x
  have dx: "distinct xs" and inj: "inj_on f (set xs)" using d by (simp_all add: distinct_map)
  show "((map_of (map (\<lambda>x. (f x, x)) xs))(f e := None)) k = Some x
        \<longleftrightarrow> map_of (map (\<lambda>x. (f x, x)) (remove1 e xs)) k = Some x"
    using index_lookup_iff[OF d, of k x] index_lookup_iff[OF distinct_map_remove1[OF d], of e k x]
      dx e inj
    by (auto simp: set_remove1_eq dest: inj_onD)
qed

lemma index_move:
  assumes d: "distinct (map f xs)" and e: "e \<in> set xs"
  shows "map_of (map (\<lambda>x. (f x, x)) (e # remove1 e xs)) = map_of (map (\<lambda>x. (f x, x)) xs)"
proof (rule map_eqI_Some)
  fix k x
  have dx: "distinct xs" and inj: "inj_on f (set xs)" using d by (simp_all add: distinct_map)
  have d': "distinct (map f (e # remove1 e xs))"
    using e dx inj by (auto simp: distinct_map set_remove1_eq inj_on_def)
  show "map_of (map (\<lambda>x. (f x, x)) (e # remove1 e xs)) k = Some x
        \<longleftrightarrow> map_of (map (\<lambda>x. (f x, x)) xs) k = Some x"
    using index_lookup_iff[OF d, of k x] index_lookup_iff[OF d', of k x] dx e
    by (auto simp: set_remove1_eq)
qed

subsection \<open>The invariant is kept\<close>

lemma wf_nil: "cache (self s) = None \<Longrightarrow> wf s \<longleftrightarrow> ll (self s) = None"
  by (auto simp: wf_def split: option.splits)

lemma wf_Some:
  "ll (self s) = Some xs \<Longrightarrow> cache (self s) = Some mp \<Longrightarrow>
   wf s \<longleftrightarrow> (\<forall>e\<in>set xs. e < length (heap s)) \<and> distinct (map (\<lambda>e. key (heap s ! e)) xs) \<and>
            mp = map_of (map (\<lambda>e. (key (heap s ! e), e)) xs)"
  by (simp add: wf_def list_all_iff)

lemma wf_cases:
  assumes "wf s"
  obtains (nil) "ll (self s) = None" "cache (self s) = None"
  | (init) xs mp where "ll (self s) = Some xs" "cache (self s) = Some mp"
      "\<forall>e\<in>set xs. e < length (heap s)" "distinct (map (\<lambda>e. key (heap s ! e)) xs)"
      "mp = map_of (map (\<lambda>e. (key (heap s ! e), e)) xs)"
  using assms by (auto simp: wf_def list_all_iff split: option.splits)

lemma wf_lookup_iff:
  assumes "wf s" "ll (self s) = Some xs" "cache (self s) = Some mp"
  shows "mp k = Some e \<longleftrightarrow> e \<in> set xs \<and> key (heap s ! e) = k"
  using assms index_lookup_iff[of "\<lambda>e. key (heap s ! e)" xs k e]
  by (simp add: wf_Some)

lemma removeElement_effect:
  assumes "ll (self s) = Some xs"
  shows "\<exists>s'. removeElement e s = Inr s' \<and> ll (self s') = Some (remove1 e xs) \<and>
           cache (self s') = map_delete (key (heap s ! e)) (cache (self s)) \<and>
           heap s' = heap s \<and> MaxEntries (self s') = MaxEntries (self s) \<and>
           OnEvicted (self s') = OnEvicted (self s) \<and>
           world s' = (case OnEvicted (self s) of None \<Rightarrow> world s
                       | Some f \<Rightarrow> f (key (heap s ! e)) (val (heap s ! e)) (world s))"
  using assms by (cases "OnEvicted (self s)") (simp_all add: removeElement_def Let_def)

lemma wf_removeElement:
  assumes w: "wf s" and l: "ll (self s) = Some xs" and e: "e \<in> set xs"
    and r: "removeElement e s = Inr s'"
  shows "wf s'"
proof -
  from w l obtain mp where mp: "cache (self s) = Some mp"
    and al: "\<forall>e\<in>set xs. e < length (heap s)"
    and d: "distinct (map (\<lambda>e. key (heap s ! e)) xs)"
    and mm: "mp = map_of (map (\<lambda>e. (key (heap s ! e), e)) xs)"
    by (auto elim: wf_cases)
  from removeElement_effect[OF l, of e] r
  have l': "ll (self s') = Some (remove1 e xs)"
    and c': "cache (self s') = Some (mp(key (heap s ! e) := None))"
    and h': "heap s' = heap s"
    by (auto simp: mp map_delete_def)
  have "\<forall>x\<in>set (remove1 e xs). x < length (heap s)"
    using al by (meson notin_set_remove1)
  moreover have "distinct (map (\<lambda>e. key (heap s ! e)) (remove1 e xs))"
    using d by (rule distinct_map_remove1)
  moreover have "mp(key (heap s ! e) := None) = map_of (map (\<lambda>e. (key (heap s ! e), e)) (remove1 e xs))"
    unfolding mm using d e by (rule index_remove1)
  ultimately show ?thesis
    using wf_Some[OF l' c'] by (simp add: h')
qed

lemma wf_Remove:
  assumes w: "wf s" and r: "Remove k s = Inr s'"
  shows "wf s'"
proof (cases "cache (self s)")
  case None
  with r w show ?thesis by (simp add: Remove_def)
next
  case (Some mp)
  with w obtain xs where l: "ll (self s) = Some xs" by (auto elim: wf_cases)
  show ?thesis
  proof (cases "mp k")
    case None
    with Some r w show ?thesis by (simp add: Remove_def)
  next
    case (Some e)
    with \<open>cache (self s) = Some mp\<close> r have "removeElement e s = Inr s'" by (simp add: Remove_def)
    moreover have "e \<in> set xs"
      using wf_lookup_iff[OF w l \<open>cache (self s) = Some mp\<close>, of k e] Some by simp
    ultimately show ?thesis using wf_removeElement[OF w l] by blast
  qed
qed

lemma RemoveOldest_nonempty:
  assumes "ll (self s) = Some xs" "cache (self s) = Some mp" "xs \<noteq> []"
  shows "RemoveOldest s = removeElement (last xs) s"
  using assms by (cases xs) (simp_all add: RemoveOldest_def)

lemma RemoveOldest_empty:
  assumes "ll (self s) = Some []"
  shows "RemoveOldest s = Inr s"
  using assms by (simp add: RemoveOldest_def)

lemma RemoveOldest_nil:
  assumes "cache (self s) = None"
  shows "RemoveOldest s = Inr s"
  using assms by (simp add: RemoveOldest_def)

lemma wf_RemoveOldest:
  assumes w: "wf s" and r: "RemoveOldest s = Inr s'"
  shows "wf s'"
  using w
proof (cases rule: wf_cases)
  case nil
  with r w show ?thesis by (simp add: RemoveOldest_nil)
next
  case (init xs mp)
  show ?thesis
  proof (cases "xs = []")
    case True
    with init r w show ?thesis by (simp add: RemoveOldest_empty)
  next
    case False
    with init r have "removeElement (last xs) s = Inr s'" by (simp add: RemoveOldest_nonempty)
    with wf_removeElement[OF w init(1), of "last xs" s'] False show ?thesis by simp
  qed
qed

lemma Get_miss: "k \<notin> keys s \<Longrightarrow> Get k s = Inr ((None, False), s)"
  by (auto simp: Get_def keys_def split: option.splits)

lemma Get_hit:
  assumes "ll (self s) = Some xs" "cache (self s) = Some mp" "mp k = Some e"
  shows "Get k s = Inr ((Some (val (heap s ! e)), True),
           s\<lparr>self := (self s)\<lparr>ll := Some (if e \<in> set xs then e # remove1 e xs else xs)\<rparr>\<rparr>)"
  using assms by (simp add: Get_def)

lemma wf_move:
  assumes w: "wf s" and l: "ll (self s) = Some xs" and e: "e \<in> set xs"
  shows "wf (s\<lparr>self := (self s)\<lparr>ll := Some (e # remove1 e xs)\<rparr>\<rparr>)"
proof -
  from w l obtain mp where mp: "cache (self s) = Some mp"
    and al: "\<forall>e\<in>set xs. e < length (heap s)"
    and d: "distinct (map (\<lambda>e. key (heap s ! e)) xs)"
    and mm: "mp = map_of (map (\<lambda>e. (key (heap s ! e), e)) xs)"
    by (auto elim: wf_cases)
  let ?f = "\<lambda>e. key (heap s ! e)"
  have dx: "distinct xs" and inj: "inj_on ?f (set xs)" using d by (simp_all add: distinct_map)
  have d': "distinct (map ?f (e # remove1 e xs))"
    using e dx inj by (auto simp: distinct_map set_remove1_eq inj_on_def)
  have "mp = map_of (map (\<lambda>e. (?f e, e)) (e # remove1 e xs))"
    unfolding mm using index_move[OF d e] by simp
  moreover have "\<forall>x\<in>set (e # remove1 e xs). x < length (heap s)"
    using al e dx by (auto simp: set_remove1_eq)
  ultimately show ?thesis using d' mp
    by (simp add: wf_def list_all_iff del: distinct.simps list.map)
qed

lemma wf_Get:
  assumes w: "wf s" and r: "Get k s = Inr (res, s')"
  shows "wf s'"
proof (cases "k \<in> keys s")
  case False
  with r w show ?thesis by (simp add: Get_miss)
next
  case True
  then obtain mp e where mp: "cache (self s) = Some mp" and e: "mp k = Some e"
    by (auto simp: keys_def split: option.splits)
  with w obtain xs where l: "ll (self s) = Some xs" by (auto elim: wf_cases)
  have ex: "e \<in> set xs" using wf_lookup_iff[OF w l mp, of k e] e by simp
  with r Get_hit[OF l mp e] have "s' = s\<lparr>self := (self s)\<lparr>ll := Some (e # remove1 e xs)\<rparr>\<rparr>"
    by simp
  with wf_move[OF w l ex] show ?thesis by simp
qed

lemma Add_existing:
  assumes "ll (self s) = Some xs" "cache (self s) = Some mp" "mp k = Some e" "e \<in> set xs"
  shows "Add k v s = Inr (s\<lparr>self := (self s)\<lparr>ll := Some (e # remove1 e xs)\<rparr>,
                           heap := (heap s)[e := (heap s ! e)\<lparr>val := v\<rparr>]\<rparr>)"
  using assms by (simp add: Add_def)

lemma Add_new_init:
  assumes "ll (self s) = Some xs" "cache (self s) = Some mp" "mp k = None"
  shows "Add k v s =
     (let s1 = s\<lparr>self := (self s)\<lparr>ll := Some (length (heap s) # xs),
                                   cache := Some (mp(k \<mapsto> length (heap s)))\<rparr>,
                  heap := heap s @ [\<lparr>key = k, val = v\<rparr>]\<rparr>
      in if MaxEntries (self s) \<noteq> 0 \<and> int (length xs) + 1 > MaxEntries (self s)
         then RemoveOldest s1 else Inr s1)"
  using assms by (simp add: Add_def Let_def)

lemma Add_new_nil:
  assumes "cache (self s) = None"
  shows "Add k v s =
     (let s1 = s\<lparr>self := (self s)\<lparr>ll := Some [length (heap s)],
                                   cache := Some [k \<mapsto> length (heap s)]\<rparr>,
                  heap := heap s @ [\<lparr>key = k, val = v\<rparr>]\<rparr>
      in if MaxEntries (self s) \<noteq> 0 \<and> 1 > MaxEntries (self s)
         then RemoveOldest s1 else Inr s1)"
  using assms by (simp add: Add_def Let_def list_New_def)

lemma wf_push:
  assumes w: "wf s" and l: "ll (self s) = Some xs" and mp: "cache (self s) = Some mp"
    and k: "mp k = None"
  shows "wf (s\<lparr>self := (self s)\<lparr>ll := Some (length (heap s) # xs),
                                 cache := Some (mp(k \<mapsto> length (heap s)))\<rparr>,
                heap := heap s @ [\<lparr>key = k, val = v\<rparr>]\<rparr>)"
proof -
  let ?h = "heap s @ [\<lparr>key = k, val = v\<rparr>]"
  from w l mp have al: "\<forall>e\<in>set xs. e < length (heap s)"
    and d: "distinct (map (\<lambda>e. key (heap s ! e)) xs)"
    and mm: "mp = map_of (map (\<lambda>e. (key (heap s ! e), e)) xs)"
    by (simp_all add: wf_Some)
  have same: "map (\<lambda>e. key (?h ! e)) xs = map (\<lambda>e. key (heap s ! e)) xs"
    using al by (simp add: nth_append)
  have same2: "map (\<lambda>e. (key (?h ! e), e)) xs = map (\<lambda>e. (key (heap s ! e), e)) xs"
    using al by (simp add: nth_append)
  have notin: "k \<notin> set (map (\<lambda>e. key (heap s ! e)) xs)"
  proof
    assume "k \<in> set (map (\<lambda>e. key (heap s ! e)) xs)"
    then obtain e where "e \<in> set xs" "key (heap s ! e) = k" by auto
    then have "mp k = Some e" using wf_lookup_iff[OF w l mp, of k e] by simp
    with k show False by simp
  qed
  have new: "?h ! length (heap s) = \<lparr>key = k, val = v\<rparr>" by simp
  have "\<forall>e\<in>set (length (heap s) # xs). e < length ?h"
    using al by (auto simp: less_Suc_eq)
  moreover have "distinct (map (\<lambda>e. key (?h ! e)) (length (heap s) # xs))"
    using d notin by (simp only: list.map same new distinct.simps) simp
  moreover have "mp(k \<mapsto> length (heap s)) =
      map_of (map (\<lambda>e. (key (?h ! e), e)) (length (heap s) # xs))"
    by (simp only: list.map same2 new) (simp add: mm)
  ultimately show ?thesis
    by (simp add: wf_def list_all_iff del: distinct.simps list.map)
qed

lemma wf_set_val:
  assumes w: "wf s"
  shows "wf (s\<lparr>heap := (heap s)[e := (heap s ! e)\<lparr>val := v\<rparr>]\<rparr>)"
  using w
proof (cases rule: wf_cases)
  case nil
  then show ?thesis by (simp add: wf_def)
next
  case (init xs mp)
  let ?h = "(heap s)[e := (heap s ! e)\<lparr>val := v\<rparr>]"
  have kk: "key (?h ! x) = key (heap s ! x)" if "x < length (heap s)" for x
    using that by (cases "x = e") simp_all
  have same: "map (\<lambda>e. key (?h ! e)) xs = map (\<lambda>e. key (heap s ! e)) xs"
    using init(3) kk by simp
  have same2: "map (\<lambda>e. (key (?h ! e), e)) xs = map (\<lambda>e. (key (heap s ! e), e)) xs"
    using init(3) kk by simp
  have "distinct (map (\<lambda>e. key (?h ! e)) xs)"
    by (simp only: same init(4))
  moreover have "mp = map_of (map (\<lambda>e. (key (?h ! e), e)) xs)"
    by (simp only: same2 init(5))
  ultimately show ?thesis using init(1,2,3) by (simp add: wf_def list_all_iff)
qed

lemma wf_Add:
  assumes w: "wf s" and r: "Add k v s = Inr s'"
  shows "wf s'"
  using w
proof (cases rule: wf_cases)
  case nil
  let ?s0 = "s\<lparr>self := (self s)\<lparr>ll := Some [], cache := Some Map.empty\<rparr>\<rparr>"
  let ?s1 = "s\<lparr>self := (self s)\<lparr>ll := Some [length (heap s)],
                                   cache := Some [k \<mapsto> length (heap s)]\<rparr>,
                  heap := heap s @ [\<lparr>key = k, val = v\<rparr>]\<rparr>"
  have "wf ?s0" by (simp add: wf_def)
  from wf_push[OF this, of "[]" Map.empty k v] have w1: "wf ?s1" by simp
  from r nil have "RemoveOldest ?s1 = Inr s' \<or> s' = ?s1"
    by (simp add: Add_new_nil Let_def split: if_splits)
  with w1 wf_RemoveOldest show ?thesis by blast
next
  case (init xs mp)
  show ?thesis
  proof (cases "mp k")
    case None
    let ?s1 = "s\<lparr>self := (self s)\<lparr>ll := Some (length (heap s) # xs),
                                   cache := Some (mp(k \<mapsto> length (heap s)))\<rparr>,
                  heap := heap s @ [\<lparr>key = k, val = v\<rparr>]\<rparr>"
    have w1: "wf ?s1" using wf_push[OF w init(1,2) None] .
    from r have "RemoveOldest ?s1 = Inr s' \<or> s' = ?s1"
      by (simp add: Add_new_init[OF init(1,2) None] Let_def split: if_splits)
    with w1 wf_RemoveOldest show ?thesis by blast
  next
    case (Some e)
    have ex: "e \<in> set xs" using wf_lookup_iff[OF w init(1,2), of k e] Some by simp
    have "wf (s\<lparr>self := (self s)\<lparr>ll := Some (e # remove1 e xs)\<rparr>\<rparr>)"
      using wf_move[OF w init(1) ex] .
    from wf_set_val[OF this, of e v] r show ?thesis
      by (simp add: Add_existing[OF init(1,2) Some ex])
  qed
qed

lemma Clear_effect:
  "\<exists>s'. Clear ks s = Inr s' \<and> ll (self s') = None \<and> cache (self s') = None \<and>
        MaxEntries (self s') = MaxEntries (self s) \<and> OnEvicted (self s') = OnEvicted (self s) \<and>
        heap s' = heap s"
  by (simp add: Clear_def Let_def)

lemma wf_Clear: "Clear ks s = Inr s' \<Longrightarrow> wf s'"
  using Clear_effect[of ks s] by (auto simp: wf_def)

lemma Len_wf: "wf s \<Longrightarrow> Len s = Inr (int (length (entries s)))"
  by (auto simp: Len_def entries_def elim!: wf_cases)

lemma wf_exec:
  assumes "wf s" "exec x s = Inr s'"
  shows "wf s'"
proof (cases x)
  case (OpAdd k v)
  with assms show ?thesis by (auto intro: wf_Add)
next
  case (OpGet k)
  with assms show ?thesis by (auto split: sum.splits intro: wf_Get)
next
  case (OpRemove k)
  with assms show ?thesis by (auto intro: wf_Remove)
next
  case OpRemoveOldest
  with assms show ?thesis by (auto intro: wf_RemoveOldest)
next
  case OpLen
  with assms show ?thesis by (auto split: sum.splits)
next
  case (OpClear ks)
  with assms show ?thesis by (auto intro: wf_Clear)
qed

lemma wf_init_New: "wf (init ((New n)\<lparr>OnEvicted := cb\<rparr>) w)"
  by (simp add: wf_def init_def New_def list_New_def)

lemma wf_init_zero: "wf (init (zero_Cache\<lparr>MaxEntries := n, OnEvicted := cb\<rparr>) w)"
  by (simp add: wf_def init_def zero_Cache_def)

subsection \<open>What the operations do to the observations\<close>

lemma map_remove1_filter:
  assumes "distinct (map (\<lambda>x. kf (g x)) xs)" "e \<in> set xs"
  shows "map g (remove1 e xs) = filter (\<lambda>x. kf x \<noteq> kf (g e)) (map g xs)"
  using assms
proof (induction xs)
  case Nil
  then show ?case by simp
next
  case (Cons a xs)
  show ?case
  proof (cases "a = e")
    case True
    have "kf (g e) \<notin> (\<lambda>x. kf (g x)) ` set xs" using Cons.prems(1) True by simp
    then have "\<forall>x\<in>set xs. kf (g x) \<noteq> kf (g e)" by (metis image_eqI)
    then have "filter (\<lambda>x. kf x \<noteq> kf (g e)) (map g xs) = map g xs"
      by (simp add: filter_map comp_def)
    with True show ?thesis by simp
  next
    case False
    then have "e \<in> set xs" using Cons.prems(2) by simp
    moreover then have "kf (g a) \<noteq> kf (g e)" using Cons.prems(1) by auto
    ultimately show ?thesis using Cons False by simp
  qed
qed

lemma remove1_last:
  assumes "distinct xs" "xs \<noteq> []"
  shows "remove1 (last xs) xs = butlast xs"
  using assms
proof (induction xs)
  case Nil
  then show ?case by simp
next
  case (Cons a xs)
  then show ?case by (cases "xs = []") auto
qed

lemma entry_eta: "\<lparr>key = key x, val = val x\<rparr> = (x :: ('k, 'v) entry)"
  by (cases x) simp

lemma keys_entries:
  assumes "wf s"
  shows "keys s = key ` set (entries s)"
  using assms
proof (cases rule: wf_cases)
  case nil
  then show ?thesis by (simp add: keys_def entries_def)
next
  case (init xs mp)
  have "dom mp = key ` set (map (\<lambda>e. heap s ! e) xs)"
  proof (intro set_eqI iffI)
    fix k assume "k \<in> dom mp"
    then obtain e where "mp k = Some e" by auto
    then have "e \<in> set xs" "key (heap s ! e) = k"
      using wf_lookup_iff[OF assms init(1,2), of k e] by simp_all
    then show "k \<in> key ` set (map (\<lambda>e. heap s ! e) xs)" by force
  next
    fix k assume "k \<in> key ` set (map (\<lambda>e. heap s ! e) xs)"
    then obtain e where "e \<in> set xs" "key (heap s ! e) = k" by auto
    then have "mp k = Some e" using wf_lookup_iff[OF assms init(1,2), of k e] by simp
    then show "k \<in> dom mp" by auto
  qed
  with init(1,2) show ?thesis by (simp add: keys_def entries_def)
qed

lemma distinct_entries:
  assumes "wf s"
  shows "distinct (map key (entries s))"
  using assms by (cases rule: wf_cases) (simp_all add: entries_def comp_def)

lemma lookup_entries:
  assumes "wf s"
  shows "lookup s k = Some v \<longleftrightarrow> \<lparr>key = k, val = v\<rparr> \<in> set (entries s)"
  using assms
proof (cases rule: wf_cases)
  case nil
  then show ?thesis by (simp add: lookup_def entries_def)
next
  case (init xs mp)
  have "(\<exists>e. mp k = Some e \<and> val (heap s ! e) = v) \<longleftrightarrow>
        (\<exists>e\<in>set xs. heap s ! e = \<lparr>key = k, val = v\<rparr>)"
  proof
    assume "\<exists>e. mp k = Some e \<and> val (heap s ! e) = v"
    then obtain e where e: "mp k = Some e" "val (heap s ! e) = v" by blast
    then have ex: "e \<in> set xs" and ke: "key (heap s ! e) = k"
      using wf_lookup_iff[OF assms init(1,2), of k e] by simp_all
    have "heap s ! e = \<lparr>key = k, val = v\<rparr>"
      using entry_eta[of "heap s ! e", symmetric] unfolding ke e(2) .
    with ex show "\<exists>e\<in>set xs. heap s ! e = \<lparr>key = k, val = v\<rparr>" by blast
  next
    assume "\<exists>e\<in>set xs. heap s ! e = \<lparr>key = k, val = v\<rparr>"
    then obtain e where e: "e \<in> set xs" "heap s ! e = \<lparr>key = k, val = v\<rparr>" by blast
    then have "mp k = Some e" using wf_lookup_iff[OF assms init(1,2), of k e] by simp
    with e(2) show "\<exists>e. mp k = Some e \<and> val (heap s ! e) = v" by simp
  qed
  moreover have "lookup s k = Some v \<longleftrightarrow> (\<exists>e. mp k = Some e \<and> val (heap s ! e) = v)"
    using init(2) by (auto simp: lookup_def split: option.splits)
  moreover have "\<lparr>key = k, val = v\<rparr> \<in> set (entries s) \<longleftrightarrow>
        (\<exists>e\<in>set xs. heap s ! e = \<lparr>key = k, val = v\<rparr>)"
    using init(1) by (simp add: entries_def image_iff) metis
  ultimately show ?thesis by simp
qed

lemma lookup_keys: "k \<in> keys s \<longleftrightarrow> (\<exists>v. lookup s k = Some v)"
  by (auto simp: keys_def lookup_def split: option.splits)

lemma Remove_entries:
  assumes w: "wf s" and k: "k \<in> keys s"
  shows "\<exists>s'. Remove k s = Inr s' \<and> entries s' = filter (\<lambda>x. key x \<noteq> k) (entries s)"
proof -
  from k obtain mp e where mp: "cache (self s) = Some mp" and e: "mp k = Some e"
    by (auto simp: keys_def split: option.splits)
  with w obtain xs where l: "ll (self s) = Some xs" by (auto elim: wf_cases)
  have ex: "e \<in> set xs" and ke: "key (heap s ! e) = k"
    using wf_lookup_iff[OF w l mp, of k e] e by simp_all
  from w l mp have d: "distinct (map (\<lambda>e. key (heap s ! e)) xs)" by (simp add: wf_Some)
  from removeElement_effect[OF l, of e] obtain s' where
    r: "removeElement e s = Inr s'" and l': "ll (self s') = Some (remove1 e xs)"
    and h': "heap s' = heap s"
    by blast
  have "Remove k s = Inr s'" using mp e r by (simp add: Remove_def)
  moreover have "entries s' = filter (\<lambda>x. key x \<noteq> k) (entries s)"
    using map_remove1_filter[of key "\<lambda>e. heap s ! e" xs e] d ex l l' h' ke
    by (simp add: entries_def)
  ultimately show ?thesis by blast
qed

lemma RemoveOldest_abstract:
  assumes w: "wf s"
  shows "\<exists>s'. RemoveOldest s = Inr s' \<and> wf s' \<and> entries s' = butlast (entries s) \<and>
           MaxEntries (self s') = MaxEntries (self s) \<and> OnEvicted (self s') = OnEvicted (self s) \<and>
           keys s' = (if entries s = [] then keys s else keys s - {key (last (entries s))}) \<and>
           world s' = (if entries s = [] then world s
                       else case OnEvicted (self s) of
                              None \<Rightarrow> world s
                            | Some f \<Rightarrow> f (key (last (entries s))) (val (last (entries s))) (world s))"
  using w
proof (cases rule: wf_cases)
  case nil
  then show ?thesis using w by (simp add: RemoveOldest_nil entries_def)
next
  case (init xs mp)
  show ?thesis
  proof (cases "xs = []")
    case True
    with init(1) w show ?thesis by (simp add: RemoveOldest_empty entries_def)
  next
    case False
    let ?e = "last xs"
    have ex: "?e \<in> set xs" using False by simp
    have dx: "distinct xs" using init(4) by (simp add: distinct_map)
    from removeElement_effect[OF init(1), of ?e] obtain s' where
      r: "removeElement ?e s = Inr s'" and l': "ll (self s') = Some (remove1 ?e xs)"
      and c': "cache (self s') = map_delete (key (heap s ! ?e)) (cache (self s))"
      and h': "heap s' = heap s"
      and me: "MaxEntries (self s') = MaxEntries (self s)"
      and oe: "OnEvicted (self s') = OnEvicted (self s)"
      and w': "world s' = (case OnEvicted (self s) of None \<Rightarrow> world s
                       | Some f \<Rightarrow> f (key (heap s ! ?e)) (val (heap s ! ?e)) (world s))"
      by blast
    have ro: "RemoveOldest s = Inr s'"
      using RemoveOldest_nonempty[OF init(1,2) False] r by simp
    have wf': "wf s'" using wf_removeElement[OF w init(1) ex r] .
    have es: "entries s = map (\<lambda>e. heap s ! e) xs" using init(1) by (simp add: entries_def)
    have la: "last (entries s) = heap s ! ?e" using False es by (simp add: last_map)
    have ne: "entries s \<noteq> []" using False es by simp
    have "entries s' = butlast (entries s)"
      using l' h' es remove1_last[OF dx False] by (simp add: entries_def map_butlast)
    moreover have "keys s' = keys s - {key (last (entries s))}"
      using c' init(2) la by (auto simp: keys_def map_delete_def)
    ultimately show ?thesis using ro wf' me oe w' ne by (simp add: la cong: option.case_cong)
  qed
qed

lemma push_abstract:
  fixes k :: 'k and v :: 'v and s :: "('k, 'v, 'w) state"
  assumes w: "wf s" and l: "ll (self s) = Some xs" and mp: "cache (self s) = Some mp"
  defines "s1 \<equiv> s\<lparr>self := (self s)\<lparr>ll := Some (length (heap s) # xs),
                                   cache := Some (mp(k \<mapsto> length (heap s)))\<rparr>,
                  heap := heap s @ [\<lparr>key = k, val = v\<rparr>]\<rparr>"
  shows "entries s1 = \<lparr>key = k, val = v\<rparr> # entries s" and "keys s1 = insert k (keys s)"
    and "world s1 = world s" and "MaxEntries (self s1) = MaxEntries (self s)"
    and "OnEvicted (self s1) = OnEvicted (self s)"
proof -
  from w l mp have al: "\<forall>e\<in>set xs. e < length (heap s)" by (simp add: wf_Some)
  then have "map (\<lambda>e. (heap s @ [\<lparr>key = k, val = v\<rparr>]) ! e) xs = map (\<lambda>e. heap s ! e) xs"
    by (simp add: nth_append)
  then show "entries s1 = \<lparr>key = k, val = v\<rparr> # entries s"
    using l by (simp add: entries_def s1_def)
  show "keys s1 = insert k (keys s)" using mp by (simp add: keys_def s1_def)
  show "world s1 = world s" "MaxEntries (self s1) = MaxEntries (self s)"
    "OnEvicted (self s1) = OnEvicted (self s)" by (simp_all add: s1_def)
qed

lemma Add_new_abstract:
  assumes w: "wf s" and k: "k \<notin> keys s"
  shows "\<exists>s'. Add k v s = Inr s' \<and> wf s' \<and>
           MaxEntries (self s') = MaxEntries (self s) \<and> OnEvicted (self s') = OnEvicted (self s) \<and>
           (if MaxEntries (self s) \<noteq> 0 \<and> int (length (entries s)) + 1 > MaxEntries (self s)
            then entries s' = butlast (\<lparr>key = k, val = v\<rparr> # entries s) \<and>
                 keys s' = insert k (keys s) - {key (last (\<lparr>key = k, val = v\<rparr> # entries s))} \<and>
                 world s' = (case OnEvicted (self s) of
                               None \<Rightarrow> world s
                             | Some f \<Rightarrow> f (key (last (\<lparr>key = k, val = v\<rparr> # entries s)))
                                          (val (last (\<lparr>key = k, val = v\<rparr> # entries s))) (world s))
            else entries s' = \<lparr>key = k, val = v\<rparr> # entries s \<and> keys s' = insert k (keys s) \<and>
                 world s' = world s)"
proof -
  define s0 where "s0 = (if cache (self s) = None
             then s\<lparr>self := (self s)\<lparr>ll := Some [], cache := Some Map.empty\<rparr>\<rparr> else s)"
  have w0: "wf s0" using w by (auto simp: wf_def s0_def)
  have a0: "Add k v s0 = Add k v s"
    by (auto simp: Add_def Let_def list_New_def s0_def)
  have e0: "entries s0 = entries s" "keys s0 = keys s" "world s0 = world s"
    "MaxEntries (self s0) = MaxEntries (self s)" "OnEvicted (self s0) = OnEvicted (self s)"
    "heap s0 = heap s"
    using w by (auto simp: entries_def keys_def s0_def elim!: wf_cases)
  have "cache (self s0) \<noteq> None" by (simp add: s0_def)
  with w0 obtain xs mp where l: "ll (self s0) = Some xs" and mp: "cache (self s0) = Some mp"
    by (cases rule: wf_cases) auto
  have mk: "mp k = None" using k mp e0(2) by (auto simp: keys_def split: option.splits)
  define s1 where "s1 = s0\<lparr>self := (self s0)\<lparr>ll := Some (length (heap s) # xs),
                                   cache := Some (mp(k \<mapsto> length (heap s)))\<rparr>,
                  heap := heap s @ [\<lparr>key = k, val = v\<rparr>]\<rparr>"
  have w1: "wf s1" unfolding s1_def using wf_push[OF w0 l mp mk, unfolded e0(6)] .
  note p = push_abstract[OF w0 l mp, of k v, unfolded e0(6), folded s1_def, unfolded e0]
  have len: "length xs = length (entries s)"
    using l e0(1)[symmetric] by (simp add: entries_def)
  have add: "Add k v s = (if MaxEntries (self s) \<noteq> 0 \<and> int (length (entries s)) + 1 > MaxEntries (self s)
         then RemoveOldest s1 else Inr s1)"
    using Add_new_init[OF l mp mk, of v] unfolding a0 len Let_def e0 s1_def[symmetric] by simp
  show ?thesis
  proof (cases "MaxEntries (self s) \<noteq> 0 \<and> int (length (entries s)) + 1 > MaxEntries (self s)")
    case True
    from RemoveOldest_abstract[OF w1] obtain s' where
      "RemoveOldest s1 = Inr s'" "wf s'" "entries s' = butlast (entries s1)"
      "MaxEntries (self s') = MaxEntries (self s1)" "OnEvicted (self s') = OnEvicted (self s1)"
      "keys s' = (if entries s1 = [] then keys s1 else keys s1 - {key (last (entries s1))})"
      "world s' = (if entries s1 = [] then world s1
                       else case OnEvicted (self s1) of
                              None \<Rightarrow> world s1
                            | Some f \<Rightarrow> f (key (last (entries s1))) (val (last (entries s1))) (world s1))"
      by blast
    then show ?thesis using True add p
      by (simp del: last.simps butlast.simps cong: option.case_cong)
  next
    case False
    then show ?thesis using add w1 p by auto
  qed
qed

lemma touch_entries:
  assumes w: "wf s" and l: "ll (self s) = Some xs" and mp: "cache (self s) = Some mp"
    and e: "mp k = Some e"
  shows "e \<in> set xs" and "key (heap s ! e) = k" and "e < length (heap s)"
    and "map (\<lambda>x. heap s ! x) (e # remove1 e xs) =
         heap s ! e # filter (\<lambda>x. key x \<noteq> k) (entries s)"
    and "length (e # remove1 e xs) = length (entries s)"
proof -
  show ex: "e \<in> set xs" and ke: "key (heap s ! e) = k"
    using wf_lookup_iff[OF w l mp, of k e] e by simp_all
  from w l mp have al: "\<forall>e\<in>set xs. e < length (heap s)"
    and d: "distinct (map (\<lambda>e. key (heap s ! e)) xs)" by (simp_all add: wf_Some)
  show "e < length (heap s)" using al ex by simp
  show "map (\<lambda>x. heap s ! x) (e # remove1 e xs) =
         heap s ! e # filter (\<lambda>x. key x \<noteq> k) (entries s)"
    using map_remove1_filter[of key "\<lambda>e. heap s ! e" xs e] d ex l ke
    by (simp add: entries_def)
  show "length (e # remove1 e xs) = length (entries s)"
  proof -
    have "length xs > 0" using ex by (cases xs) auto
    then show ?thesis using ex l by (simp add: entries_def length_remove1)
  qed
qed

lemma Get_hit_abstract:
  assumes w: "wf s" and lk: "lookup s k = Some v"
  shows "\<exists>s'. Get k s = Inr ((Some v, True), s') \<and> wf s' \<and>
           entries s' = \<lparr>key = k, val = v\<rparr> # filter (\<lambda>x. key x \<noteq> k) (entries s) \<and>
           length (entries s') = length (entries s) \<and>
           keys s' = keys s \<and> world s' = world s \<and> heap s' = heap s \<and>
           MaxEntries (self s') = MaxEntries (self s) \<and> OnEvicted (self s') = OnEvicted (self s)"
proof -
  from lk obtain mp e where mp: "cache (self s) = Some mp" and e: "mp k = Some e"
    and v: "val (heap s ! e) = v"
    by (auto simp: lookup_def split: option.splits)
  with w obtain xs where l: "ll (self s) = Some xs" by (auto elim: wf_cases)
  note t = touch_entries[OF w l mp e]
  let ?s' = "s\<lparr>self := (self s)\<lparr>ll := Some (e # remove1 e xs)\<rparr>\<rparr>"
  have g: "Get k s = Inr ((Some v, True), ?s')"
    using Get_hit[OF l mp e] t(1) v by simp
  have he: "heap s ! e = \<lparr>key = k, val = v\<rparr>"
    using entry_eta[of "heap s ! e", symmetric] unfolding t(2) v .
  have "entries ?s' = \<lparr>key = k, val = v\<rparr> # filter (\<lambda>x. key x \<noteq> k) (entries s)"
    using t(4) he by (simp add: entries_def)
  moreover have "length (entries ?s') = length (entries s)"
    using t(5) by (simp add: entries_def)
  moreover have "keys ?s' = keys s" by (simp add: keys_def)
  moreover have "wf ?s'" using wf_move[OF w l t(1)] .
  ultimately show ?thesis using g by simp
qed

lemma Add_existing_abstract:
  assumes w: "wf s" and k: "k \<in> keys s"
  shows "\<exists>s'. Add k v s = Inr s' \<and> wf s' \<and>
           entries s' = \<lparr>key = k, val = v\<rparr> # filter (\<lambda>x. key x \<noteq> k) (entries s) \<and>
           length (entries s') = length (entries s) \<and>
           keys s' = keys s \<and> world s' = world s \<and>
           MaxEntries (self s') = MaxEntries (self s) \<and> OnEvicted (self s') = OnEvicted (self s)"
proof -
  from k obtain mp e where mp: "cache (self s) = Some mp" and e: "mp k = Some e"
    by (auto simp: keys_def split: option.splits)
  with w obtain xs where l: "ll (self s) = Some xs" by (auto elim: wf_cases)
  note t = touch_entries[OF w l mp e]
  let ?h = "(heap s)[e := (heap s ! e)\<lparr>val := v\<rparr>]"
  let ?s' = "s\<lparr>self := (self s)\<lparr>ll := Some (e # remove1 e xs)\<rparr>, heap := ?h\<rparr>"
  have a: "Add k v s = Inr ?s'" using Add_existing[OF l mp e t(1)] .
  have "wf (s\<lparr>self := (self s)\<lparr>ll := Some (e # remove1 e xs)\<rparr>\<rparr>)"
    using wf_move[OF w l t(1)] .
  from wf_set_val[OF this, of e v] have w': "wf ?s'" by simp
  from w l mp have d: "distinct (map (\<lambda>e. key (heap s ! e)) xs)" by (simp add: wf_Some)
  then have dx: "distinct xs" by (simp add: distinct_map)
  have he: "?h ! e = \<lparr>key = k, val = v\<rparr>"
    using t(3) t(2) by (cases "heap s ! e") auto
  have same: "map (\<lambda>x. ?h ! x) (remove1 e xs) = map (\<lambda>x. heap s ! x) (remove1 e xs)"
    using dx by (intro map_cong) auto
  have "map (\<lambda>x. heap s ! x) (remove1 e xs) = filter (\<lambda>x. key x \<noteq> k) (entries s)"
    using t(4) by simp
  then have "map (\<lambda>x. ?h ! x) (e # remove1 e xs) =
         \<lparr>key = k, val = v\<rparr> # filter (\<lambda>x. key x \<noteq> k) (entries s)"
    unfolding list.map same he by simp
  then have "entries ?s' = \<lparr>key = k, val = v\<rparr> # filter (\<lambda>x. key x \<noteq> k) (entries s)"
    by (simp add: entries_def)
  moreover have "length (entries ?s') = length (entries s)"
    using t(5) by (simp add: entries_def)
  moreover have "keys ?s' = keys s" by (simp add: keys_def)
  ultimately show ?thesis using a w' by simp
qed

lemma Remove_absent: "k \<notin> keys s \<Longrightarrow> Remove k s = Inr s"
  by (auto simp: Remove_def keys_def split: option.splits)

lemma Get_total:
  assumes w: "wf s"
  shows "\<exists>r s'. Get k s = Inr (r, s') \<and> wf s' \<and> length (entries s') = length (entries s) \<and>
           MaxEntries (self s') = MaxEntries (self s) \<and> OnEvicted (self s') = OnEvicted (self s)"
proof (cases "k \<in> keys s")
  case True
  then obtain v where "lookup s k = Some v" by (auto simp: lookup_keys)
  from Get_hit_abstract[OF w this] show ?thesis by blast
next
  case False
  then have "Get k s = Inr ((None, False), s)" by (rule Get_miss)
  with w show ?thesis by blast
qed

lemma exec_inv:
  assumes w: "wf s"
  shows "\<exists>s'. exec x s = Inr s' \<and> wf s' \<and>
           MaxEntries (self s') = MaxEntries (self s) \<and> OnEvicted (self s') = OnEvicted (self s) \<and>
           (0 < MaxEntries (self s) \<and> int (length (entries s)) \<le> MaxEntries (self s) \<longrightarrow>
              int (length (entries s')) \<le> MaxEntries (self s))"
proof (cases x)
  case (OpAdd k v)
  show ?thesis
  proof (cases "k \<in> keys s")
    case True
    from Add_existing_abstract[OF w True, of v] show ?thesis unfolding OpAdd by auto
  next
    case False
    from Add_new_abstract[OF w False, of v] obtain s' where
      a: "Add k v s = Inr s'" "wf s'" "MaxEntries (self s') = MaxEntries (self s)"
         "OnEvicted (self s') = OnEvicted (self s)" and
      c: "if MaxEntries (self s) \<noteq> 0 \<and> int (length (entries s)) + 1 > MaxEntries (self s)
            then entries s' = butlast (\<lparr>key = k, val = v\<rparr> # entries s)
            else entries s' = \<lparr>key = k, val = v\<rparr> # entries s"
      by (auto split: if_splits)
    have "0 < MaxEntries (self s) \<and> int (length (entries s)) \<le> MaxEntries (self s) \<longrightarrow>
              int (length (entries s')) \<le> MaxEntries (self s)"
    proof (cases "MaxEntries (self s) \<noteq> 0 \<and> int (length (entries s)) + 1 > MaxEntries (self s)")
      case True
      with c have "length (entries s') = length (entries s)" by simp
      then show ?thesis by simp
    next
      case False
      with c have "length (entries s') = length (entries s) + 1" by simp
      with False show ?thesis by auto
    qed
    with a show ?thesis unfolding OpAdd by auto
  qed
next
  case (OpGet k)
  from Get_total[OF w, of k] show ?thesis unfolding OpGet by auto
next
  case (OpRemove k)
  show ?thesis
  proof (cases "k \<in> keys s")
    case True
    from Remove_entries[OF w True] obtain s' where
      r: "Remove k s = Inr s'" and e: "entries s' = filter (\<lambda>x. key x \<noteq> k) (entries s)" by blast
    have "length (entries s') \<le> length (entries s)" unfolding e by (rule length_filter_le)
    moreover have "wf s'" using wf_Remove[OF w r] .
    moreover have "MaxEntries (self s') = MaxEntries (self s) \<and> OnEvicted (self s') = OnEvicted (self s)"
    proof -
      from True obtain mp e where mp: "cache (self s) = Some mp" "mp k = Some e"
        by (auto simp: keys_def split: option.splits)
      with w obtain xs where l: "ll (self s) = Some xs" by (auto elim: wf_cases)
      from removeElement_effect[OF l, of e] r mp show ?thesis by (auto simp: Remove_def)
    qed
    ultimately show ?thesis using r unfolding OpRemove by auto
  next
    case False
    then show ?thesis using w unfolding OpRemove by (simp add: Remove_absent)
  qed
next
  case OpRemoveOldest
  from RemoveOldest_abstract[OF w] obtain s' where
    "RemoveOldest s = Inr s'" "wf s'" "entries s' = butlast (entries s)"
    "MaxEntries (self s') = MaxEntries (self s)" "OnEvicted (self s') = OnEvicted (self s)"
    by blast
  then show ?thesis unfolding OpRemoveOldest by auto
next
  case OpLen
  then show ?thesis using w Len_wf[OF w] by simp
next
  case (OpClear ks)
  from Clear_effect[of ks s] obtain s' where
    c: "Clear ks s = Inr s'" "ll (self s') = None" "cache (self s') = None"
       "MaxEntries (self s') = MaxEntries (self s)" "OnEvicted (self s') = OnEvicted (self s)"
    by blast
  then have "wf s'" "entries s' = []" by (simp_all add: wf_def entries_def)
  with c show ?thesis unfolding OpClear by auto
qed

lemma run_inv:
  assumes "wf s" "0 < MaxEntries (self s)" "int (length (entries s)) \<le> MaxEntries (self s)"
  shows "\<exists>s'. run ops s = Inr s' \<and> wf s' \<and> MaxEntries (self s') = MaxEntries (self s) \<and>
           OnEvicted (self s') = OnEvicted (self s) \<and>
           int (length (entries s')) \<le> MaxEntries (self s)"
  using assms
proof (induction ops arbitrary: s)
  case Nil
  then show ?case by simp
next
  case (Cons x ops)
  from exec_inv[OF Cons.prems(1), of x] Cons.prems(2,3) obtain s1 where
    s1: "exec x s = Inr s1" "wf s1" "MaxEntries (self s1) = MaxEntries (self s)"
      "OnEvicted (self s1) = OnEvicted (self s)"
      "int (length (entries s1)) \<le> MaxEntries (self s)"
    by blast
  from Cons.IH[of s1] s1 Cons.prems(2) obtain s' where
    "run ops s1 = Inr s'" "wf s'" "MaxEntries (self s') = MaxEntries (self s)"
    "OnEvicted (self s') = OnEvicted (self s)" "int (length (entries s')) \<le> MaxEntries (self s)"
    by auto
  with s1(1) show ?case by simp
qed

lemma fold_range:
  assumes "set ks \<subseteq> dom mp"
  shows "fold (\<lambda>k w. case mp k of None \<Rightarrow> w | Some e \<Rightarrow> F e w) ks w =
         fold F (map (\<lambda>k. the (mp k)) ks) w"
  using assms by (induction ks arbitrary: w) auto

lemma range_visits_elements:
  assumes w: "wf s" and l: "ll (self s) = Some xs" and mp: "cache (self s) = Some mp"
    and ks: "distinct ks" "set ks = dom mp"
  shows "mset (map (\<lambda>k. the (mp k)) ks) = mset xs"
proof -
  let ?es = "map (\<lambda>k. the (mp k)) ks"
  note iff = wf_lookup_iff[OF w l mp]
  from w l mp have "distinct (map (\<lambda>e. key (heap s ! e)) xs)" by (simp add: wf_Some)
  then have dx: "distinct xs" by (simp add: distinct_map)
  have "inj_on (\<lambda>k. the (mp k)) (set ks)"
  proof (rule inj_onI)
    fix a b assume "a \<in> set ks" "b \<in> set ks" "the (mp a) = the (mp b)"
    then obtain e where "mp a = Some e" "mp b = Some e" using ks(2) by auto
    then show "a = b" using iff by metis
  qed
  then have d: "distinct ?es" using ks(1) by (simp add: distinct_map)
  have "set ?es = set xs"
  proof (intro set_eqI iffI)
    fix e assume "e \<in> set ?es"
    then obtain k where "k \<in> dom mp" "e = the (mp k)" using ks(2) by auto
    then have "mp k = Some e" by auto
    then show "e \<in> set xs" using iff by simp
  next
    fix e assume "e \<in> set xs"
    then have "mp (key (heap s ! e)) = Some e" using iff by simp
    then have "key (heap s ! e) \<in> set ks" "the (mp (key (heap s ! e))) = e"
      using ks(2) by auto
    then show "e \<in> set ?es" by force
  qed
  then show ?thesis using set_eq_iff_mset_eq_distinct[OF d dx] by blast
qed

subsection \<open>The example states\<close>

lemma st_ab_reached:
  "run [OpAdd ''a'' 1, OpAdd ''b'' 2] (init cache2 []) = Inr st_ab"
  by (simp add: Add_def Let_def init_def cache2_def New_def list_New_def st_ab_def)

lemma wf_st_ab: "wf st_ab"
  by (simp add: wf_def st_ab_def)

lemma keys_st_ab: "keys st_ab = {''a'', ''b''}"
  by (auto simp: keys_def st_ab_def)

lemma entries_st_ab: "entries st_ab = [\<lparr>key = ''b'', val = 2\<rparr>, \<lparr>key = ''a'', val = 1\<rparr>]"
  by (simp add: entries_def st_ab_def)

subsection \<open>The claims about the cache\<close>

text \<open>
  Claim C1, as the code has it.  \<^verbatim>\<open>Remove\<close> of a key that is present deletes its entry
  from the lookup mapping and from the recency order, and, going through
  \<^verbatim>\<open>removeElement\<close> as \<^verbatim>\<open>RemoveOldest\<close> does, invokes \<^verbatim>\<open>OnEvicted\<close> (when it is
  set) exactly once, with the removed key and its value.
\<close>

theorem Remove_present:
  assumes w: "wf s" and k: "k \<in> keys s"
  shows "\<exists>s' v. lookup s k = Some v \<and> \<lparr>key = k, val = v\<rparr> \<in> set (entries s) \<and>
           Remove k s = Inr s' \<and> keys s' = keys s - {k} \<and>
           entries s' = filter (\<lambda>x. key x \<noteq> k) (entries s) \<and>
           world s' = (case OnEvicted (self s) of None \<Rightarrow> world s | Some f \<Rightarrow> f k v (world s))"
proof -
  from k obtain mp e where mp: "cache (self s) = Some mp" and e: "mp k = Some e"
    by (auto simp: keys_def split: option.splits)
  with w obtain xs where l: "ll (self s) = Some xs" by (auto elim: wf_cases)
  have ex: "e \<in> set xs" and ke: "key (heap s ! e) = k"
    using wf_lookup_iff[OF w l mp, of k e] e by simp_all
  from w l mp have d: "distinct (map (\<lambda>e. key (heap s ! e)) xs)" by (simp add: wf_Some)
  let ?v = "val (heap s ! e)"
  have lk: "lookup s k = Some ?v" using mp e by (simp add: lookup_def)
  from removeElement_effect[OF l, of e] obtain s' where
    r: "removeElement e s = Inr s'" and l': "ll (self s') = Some (remove1 e xs)"
    and c': "cache (self s') = map_delete (key (heap s ! e)) (cache (self s))"
    and h': "heap s' = heap s"
    and w': "world s' = (case OnEvicted (self s) of None \<Rightarrow> world s
                       | Some f \<Rightarrow> f (key (heap s ! e)) (val (heap s ! e)) (world s))"
    by blast
  have "Remove k s = Inr s'" using mp e r by (simp add: Remove_def)
  moreover have "keys s' = keys s - {k}"
    using c' mp ke by (auto simp: keys_def map_delete_def)
  moreover have "entries s' = filter (\<lambda>x. key x \<noteq> k) (entries s)"
    using map_remove1_filter[of key "\<lambda>e. heap s ! e" xs e] d ex l l' h' ke
    by (simp add: entries_def)
  moreover have "\<lparr>key = k, val = ?v\<rparr> \<in> set (entries s)"
    using lookup_entries[OF w, of k ?v] lk by simp
  ultimately show ?thesis using lk w' ke by auto
qed

text \<open>Claim C1 at the cache of the example.\<close>

theorem Remove_present_witness:
  "wf st_ab \<and> ''b'' \<in> keys st_ab \<and>
   observe (Remove ''b'' st_ab) = Inr ([\<lparr>key = ''a'', val = 1\<rparr>], [(''b'', 2)])"
proof -
  have k: "''b'' \<in> keys st_ab" by (simp add: keys_st_ab)
  have lk: "lookup st_ab ''b'' = Some 2" by (simp add: lookup_def st_ab_def)
  have cb: "OnEvicted (self st_ab) = Some record_call" "world st_ab = []"
    by (simp_all add: st_ab_def)
  from Remove_present[OF wf_st_ab k] obtain s' v where
    v: "lookup st_ab ''b'' = Some v" and r: "Remove ''b'' st_ab = Inr s'"
    and e: "entries s' = filter (\<lambda>x. key x \<noteq> ''b'') (entries st_ab)"
    and w: "world s' = (case OnEvicted (self st_ab) of None \<Rightarrow> world st_ab
                        | Some f \<Rightarrow> f ''b'' v (world st_ab))"
    by blast
  from v lk have "v = 2" by simp
  with w cb have w': "world s' = [(''b'', 2)]" by (simp add: record_call_def)
  from e have e': "entries s' = [\<lparr>key = ''a'', val = 1\<rparr>]" by (simp add: entries_st_ab)
  have "observe (Remove ''b'' st_ab) = Inr ([\<lparr>key = ''a'', val = 1\<rparr>], [(''b'', 2)])"
    unfolding r by (simp add: observe_def e' w')
  with wf_st_ab k show ?thesis by simp
qed

text \<open>
  Claim C1 as stated says that \<^verbatim>\<open>Remove\<close> does not invoke \<^verbatim>\<open>OnEvicted\<close>.  In the
  cache holding \<open>a\<close> and \<open>b\<close>, whose callback has recorded nothing so far,
  \<^verbatim>\<open>Remove("a")\<close> leaves the record of one invocation, \<open>(a, 1)\<close>.
\<close>

theorem Remove_invokes_OnEvicted_counterexample:
  "wf st_ab \<and> ''a'' \<in> keys st_ab \<and> OnEvicted (self st_ab) = Some record_call \<and>
   world st_ab = [] \<and>
   observe (Remove ''a'' st_ab) = Inr ([\<lparr>key = ''b'', val = 2\<rparr>], [(''a'', 1)])"
  by (simp add: wf_st_ab keys_st_ab)
     (simp add: st_ab_def Remove_def removeElement_def map_delete_def observe_def entries_def
        record_call_def)

text \<open>
  Claim C2, as the code has it.  In a cache with \<^verbatim>\<open>MaxEntries > 0\<close> that holds at most
  \<^verbatim>\<open>MaxEntries\<close> entries, no public operation panics, and after any one of them, and so
  after any sequence of them, \<^verbatim>\<open>Len\<close> is the length of the order and at most
  \<^verbatim>\<open>MaxEntries\<close>; and \<^verbatim>\<open>Add\<close> of a new key to a cache that holds exactly
  \<^verbatim>\<open>MaxEntries\<close> entries drops exactly the last one, so that \<^verbatim>\<open>Len\<close> is
  \<^verbatim>\<open>MaxEntries\<close> again.
\<close>

theorem Len_bounded:
  assumes w: "wf s" and n: "0 < MaxEntries (self s)"
    and b: "int (length (entries s)) \<le> MaxEntries (self s)"
  shows "(\<exists>s'. exec x s = Inr s' \<and> wf s' \<and> MaxEntries (self s') = MaxEntries (self s) \<and>
              Len s' = Inr (int (length (entries s'))) \<and>
              int (length (entries s')) \<le> MaxEntries (self s)) \<and>
         (\<exists>s'. run ops s = Inr s' \<and> wf s' \<and> MaxEntries (self s') = MaxEntries (self s) \<and>
              Len s' = Inr (int (length (entries s'))) \<and>
              int (length (entries s')) \<le> MaxEntries (self s)) \<and>
         (\<forall>k v. k \<notin> keys s \<and> int (length (entries s)) = MaxEntries (self s) \<longrightarrow>
            (\<exists>s'. Add k v s = Inr s' \<and>
                  entries s' = \<lparr>key = k, val = v\<rparr> # butlast (entries s) \<and>
                  Len s' = Inr (MaxEntries (self s))))"
proof (intro conjI allI impI)
  from exec_inv[OF w, of x] n b obtain s' where
    s': "exec x s = Inr s'" "wf s'" "MaxEntries (self s') = MaxEntries (self s)"
      "int (length (entries s')) \<le> MaxEntries (self s)"
    by blast
  with Len_wf[OF s'(2)]
  show "\<exists>s'. exec x s = Inr s' \<and> wf s' \<and> MaxEntries (self s') = MaxEntries (self s) \<and>
              Len s' = Inr (int (length (entries s'))) \<and>
              int (length (entries s')) \<le> MaxEntries (self s)"
    by blast
next
  from run_inv[OF w n b, of ops] obtain s' where
    s': "run ops s = Inr s'" "wf s'" "MaxEntries (self s') = MaxEntries (self s)"
      "int (length (entries s')) \<le> MaxEntries (self s)"
    by blast
  with Len_wf[OF s'(2)]
  show "\<exists>s'. run ops s = Inr s' \<and> wf s' \<and> MaxEntries (self s') = MaxEntries (self s) \<and>
              Len s' = Inr (int (length (entries s'))) \<and>
              int (length (entries s')) \<le> MaxEntries (self s)"
    by blast
next
  fix k v assume a: "k \<notin> keys s \<and> int (length (entries s)) = MaxEntries (self s)"
  then have k: "k \<notin> keys s" and full: "int (length (entries s)) = MaxEntries (self s)"
    by simp_all
  from Add_new_abstract[OF w k, of v] n full obtain s' where
    a: "Add k v s = Inr s'" "wf s'" "entries s' = butlast (\<lparr>key = k, val = v\<rparr> # entries s)"
    by auto
  have ne: "entries s \<noteq> []" using n full by auto
  then have es: "entries s' = \<lparr>key = k, val = v\<rparr> # butlast (entries s)" using a(3) by simp
  have "length (entries s') = length (entries s)" unfolding es using ne by simp
  then have "Len s' = Inr (MaxEntries (self s))" using Len_wf[OF a(2)] full by simp
  with a(1) es
  show "\<exists>s'. Add k v s = Inr s' \<and> entries s' = \<lparr>key = k, val = v\<rparr> # butlast (entries s) \<and>
              Len s' = Inr (MaxEntries (self s))"
    by blast
qed

text \<open>Claim C2 at the cache of the example, which is full: capacity 2, keys a and b.\<close>

theorem Len_bounded_witness:
  "wf st_ab \<and> 0 < MaxEntries (self st_ab) \<and>
   int (length (entries st_ab)) \<le> MaxEntries (self st_ab) \<and>
   ''c'' \<notin> keys st_ab \<and> int (length (entries st_ab)) = MaxEntries (self st_ab) \<and>
   Len_after (OpAdd ''c'' 3) st_ab = Inr 2 \<and>
   observe (Add ''c'' 3 st_ab) =
     Inr ([\<lparr>key = ''c'', val = 3\<rparr>, \<lparr>key = ''b'', val = 2\<rparr>], [(''a'', 1)])"
proof -
  have n: "0 < MaxEntries (self st_ab)" and m2: "MaxEntries (self st_ab) = 2"
    by (simp_all add: st_ab_def)
  have b: "int (length (entries st_ab)) \<le> MaxEntries (self st_ab)"
    and full: "int (length (entries st_ab)) = MaxEntries (self st_ab)"
    by (simp_all add: entries_st_ab m2)
  have k: "''c'' \<notin> keys st_ab" by (simp add: keys_st_ab)
  note th = Len_bounded[OF wf_st_ab n b, of "OpAdd ''c'' 3" "[]"]
  from th[THEN conjunct2, THEN conjunct2, THEN spec, of "''c''", THEN spec, of 3] k full
  obtain s' where s': "Add ''c'' 3 st_ab = Inr s'"
    "entries s' = \<lparr>key = ''c'', val = 3\<rparr> # butlast (entries st_ab)"
    "Len s' = Inr (MaxEntries (self st_ab))"
    by blast
  have 1: "Len_after (OpAdd ''c'' 3) st_ab = Inr 2"
    using s'(1,3) m2 by (simp add: Len_after_def)
  have 2: "observe (Add ''c'' 3 st_ab) =
     Inr ([\<lparr>key = ''c'', val = 3\<rparr>, \<lparr>key = ''b'', val = 2\<rparr>], [(''a'', 1)])"
    by (simp add: st_ab_def Add_def Let_def RemoveOldest_def removeElement_def map_delete_def
        observe_def entries_def record_call_def)
  from wf_st_ab n b k full 1 2 show ?thesis by blast
qed

text \<open>
  Claim C2 as stated holds of every cache with \<^verbatim>\<open>MaxEntries > 0\<close>.  \<^verbatim>\<open>MaxEntries\<close>
  is an exported field: after \<^verbatim>\<open>New(0)\<close>, three insertions and \<^verbatim>\<open>c.MaxEntries = 1\<close>
  the cache holds three entries, and it still holds three after \<^verbatim>\<open>Get\<close>, after
  \<^verbatim>\<open>Add\<close> of a new key (one entry comes, one goes) and after \<^verbatim>\<open>Add\<close> of a key it
  has.
\<close>

theorem Len_exceeds_MaxEntries_counterexample:
  "run [OpAdd ''a'' 1, OpAdd ''b'' 2, OpAdd ''c'' 3] (init (New 0) ()) =
     Inr (st_over\<lparr>self := (self st_over)\<lparr>MaxEntries := 0\<rparr>\<rparr>) \<and>
   wf st_over \<and> MaxEntries (self st_over) = 1 \<and>
   Len_after (OpGet ''a'') st_over = Inr 3 \<and>
   Len_after (OpAdd ''d'' 4) st_over = Inr 3 \<and>
   Len_after (OpAdd ''a'' 5) st_over = Inr 3"
  by (simp add: st_over_def init_def New_def list_New_def wf_def Len_after_def Add_def Let_def
      Get_def Len_def RemoveOldest_def removeElement_def map_delete_def numeral_2_eq_2)

text \<open>
  Claim C3.  When \<^verbatim>\<open>Add\<close> of a new key takes the length over a non-zero
  \<^verbatim>\<open>MaxEntries\<close>, the entry dropped is the back of the recency order, and
  \<^verbatim>\<open>OnEvicted\<close> is applied once, to the key and value of that entry.  The order is
  the one in which \<^verbatim>\<open>Add\<close> (of a new or of a present key) and a \<^verbatim>\<open>Get\<close> that hits
  put the touched key at the front and leave the rest as it was.
\<close>

theorem Add_evicts_least_recently_used:
  assumes w: "wf s"
  shows "(k \<notin> keys s \<and> MaxEntries (self s) \<noteq> 0 \<and> int (length (entries s)) + 1 > MaxEntries (self s) \<longrightarrow>
          (\<exists>s'. Add k v s = Inr s' \<and>
                entries s' = butlast (\<lparr>key = k, val = v\<rparr> # entries s) \<and>
                keys s' = insert k (keys s) - {key (last (\<lparr>key = k, val = v\<rparr> # entries s))} \<and>
                world s' = (case OnEvicted (self s) of
                              None \<Rightarrow> world s
                            | Some f \<Rightarrow> f (key (last (\<lparr>key = k, val = v\<rparr> # entries s)))
                                         (val (last (\<lparr>key = k, val = v\<rparr> # entries s))) (world s)))) \<and>
         (k \<notin> keys s \<and> \<not> (MaxEntries (self s) \<noteq> 0 \<and> int (length (entries s)) + 1 > MaxEntries (self s)) \<longrightarrow>
          (\<exists>s'. Add k v s = Inr s' \<and> entries s' = \<lparr>key = k, val = v\<rparr> # entries s \<and>
                world s' = world s)) \<and>
         (k \<in> keys s \<longrightarrow>
          (\<exists>s'. Add k v s = Inr s' \<and>
                entries s' = \<lparr>key = k, val = v\<rparr> # filter (\<lambda>x. key x \<noteq> k) (entries s) \<and>
                world s' = world s)) \<and>
         (\<forall>u. lookup s k = Some u \<longrightarrow>
          (\<exists>s'. Get k s = Inr ((Some u, True), s') \<and>
                entries s' = \<lparr>key = k, val = u\<rparr> # filter (\<lambda>x. key x \<noteq> k) (entries s) \<and>
                world s' = world s))"
proof (intro conjI impI allI)
  assume a: "k \<notin> keys s \<and> MaxEntries (self s) \<noteq> 0 \<and> int (length (entries s)) + 1 > MaxEntries (self s)"
  then have k: "k \<notin> keys s" by simp
  from Add_new_abstract[OF w k, of v] a
  show "\<exists>s'. Add k v s = Inr s' \<and>
                entries s' = butlast (\<lparr>key = k, val = v\<rparr> # entries s) \<and>
                keys s' = insert k (keys s) - {key (last (\<lparr>key = k, val = v\<rparr> # entries s))} \<and>
                world s' = (case OnEvicted (self s) of
                              None \<Rightarrow> world s
                            | Some f \<Rightarrow> f (key (last (\<lparr>key = k, val = v\<rparr> # entries s)))
                                         (val (last (\<lparr>key = k, val = v\<rparr> # entries s))) (world s))"
    by (auto simp del: last.simps butlast.simps)
next
  assume a: "k \<notin> keys s \<and> \<not> (MaxEntries (self s) \<noteq> 0 \<and> int (length (entries s)) + 1 > MaxEntries (self s))"
  then have k: "k \<notin> keys s" by simp
  from Add_new_abstract[OF w k, of v] a
  show "\<exists>s'. Add k v s = Inr s' \<and> entries s' = \<lparr>key = k, val = v\<rparr> # entries s \<and> world s' = world s"
    by auto
next
  assume "k \<in> keys s"
  from Add_existing_abstract[OF w this, of v]
  show "\<exists>s'. Add k v s = Inr s' \<and>
                entries s' = \<lparr>key = k, val = v\<rparr> # filter (\<lambda>x. key x \<noteq> k) (entries s) \<and>
                world s' = world s" by blast
next
  fix u assume "lookup s k = Some u"
  from Get_hit_abstract[OF w this]
  show "\<exists>s'. Get k s = Inr ((Some u, True), s') \<and>
                entries s' = \<lparr>key = k, val = u\<rparr> # filter (\<lambda>x. key x \<noteq> k) (entries s) \<and>
                world s' = world s" by blast
qed

text \<open>Claim C3 at the example of the specification: capacity 2, keys a, b, c, then
  \<^verbatim>\<open>Get("b")\<close> and \<^verbatim>\<open>Add("d", 4)\<close>.\<close>

theorem Add_evicts_least_recently_used_witness:
  "wf st_ab \<and> ''c'' \<notin> keys st_ab \<and> MaxEntries (self st_ab) \<noteq> 0 \<and>
   int (length (entries st_ab)) + 1 > MaxEntries (self st_ab) \<and>
   observe (Add ''c'' 3 st_ab) =
     Inr ([\<lparr>key = ''c'', val = 3\<rparr>, \<lparr>key = ''b'', val = 2\<rparr>], [(''a'', 1)]) \<and>
   observe (run [OpAdd ''a'' 1, OpAdd ''b'' 2, OpAdd ''c'' 3, OpGet ''b'', OpAdd ''d'' 4]
              (init cache2 [])) =
     Inr ([\<lparr>key = ''d'', val = 4\<rparr>, \<lparr>key = ''b'', val = 2\<rparr>], [(''a'', 1), (''c'', 3)])"
proof -
  have h: "''c'' \<notin> keys st_ab" "MaxEntries (self st_ab) \<noteq> 0"
    "int (length (entries st_ab)) + 1 > MaxEntries (self st_ab)"
    by (simp_all add: keys_st_ab entries_st_ab) (simp_all add: st_ab_def)
  have cb: "OnEvicted (self st_ab) = Some record_call" "world st_ab = []"
    by (simp_all add: st_ab_def)
  from Add_evicts_least_recently_used[OF wf_st_ab, of "''c''" 3] h obtain s' where
    a: "Add ''c'' 3 st_ab = Inr s'"
    and e: "entries s' = butlast (\<lparr>key = ''c'', val = 3\<rparr> # entries st_ab)"
    and w: "world s' = (case OnEvicted (self st_ab) of
                              None \<Rightarrow> world st_ab
                            | Some f \<Rightarrow> f (key (last (\<lparr>key = ''c'', val = 3\<rparr> # entries st_ab)))
                                         (val (last (\<lparr>key = ''c'', val = 3\<rparr> # entries st_ab)))
                                         (world st_ab))"
    by blast
  from e have e': "entries s' = [\<lparr>key = ''c'', val = 3\<rparr>, \<lparr>key = ''b'', val = 2\<rparr>]"
    by (simp add: entries_st_ab)
  from w have w': "world s' = [(''a'', 1)]"
    unfolding cb entries_st_ab by (simp add: record_call_def)
  have 1: "observe (Add ''c'' 3 st_ab) =
     Inr ([\<lparr>key = ''c'', val = 3\<rparr>, \<lparr>key = ''b'', val = 2\<rparr>], [(''a'', 1)])"
    unfolding a by (simp add: observe_def e' w')
  have 2: "observe (run [OpAdd ''a'' 1, OpAdd ''b'' 2, OpAdd ''c'' 3, OpGet ''b'', OpAdd ''d'' 4]
              (init cache2 [])) =
     Inr ([\<lparr>key = ''d'', val = 4\<rparr>, \<lparr>key = ''b'', val = 2\<rparr>], [(''a'', 1), (''c'', 3)])"
    by (simp add: Add_def Let_def init_def cache2_def New_def list_New_def RemoveOldest_def
      removeElement_def map_delete_def Get_def observe_def entries_def record_call_def)
  from wf_st_ab h 1 2 show ?thesis by blast
qed

text \<open>
  Claim C5, as the code has it.  \<^verbatim>\<open>Add(key, value)\<close> immediately followed by
  \<^verbatim>\<open>Get(key)\<close> returns \<^verbatim>\<open>(value, true)\<close>, unless \<^verbatim>\<open>MaxEntries\<close> is negative and
  the cache is empty.
\<close>

theorem Add_then_Get:
  assumes w: "wf s" and ne: "0 \<le> MaxEntries (self s) \<or> entries s \<noteq> []"
  shows "Add_Get k v s = Inr (Some v, True)"
proof -
  have "\<exists>s'. Add k v s = Inr s' \<and> wf s' \<and> \<lparr>key = k, val = v\<rparr> \<in> set (entries s')"
  proof (cases "k \<in> keys s")
    case True
    from Add_existing_abstract[OF w True, of v] show ?thesis by auto
  next
    case False
    from Add_new_abstract[OF w False, of v] obtain s' where
      a: "Add k v s = Inr s'" "wf s'" and
      c: "if MaxEntries (self s) \<noteq> 0 \<and> int (length (entries s)) + 1 > MaxEntries (self s)
            then entries s' = butlast (\<lparr>key = k, val = v\<rparr> # entries s)
            else entries s' = \<lparr>key = k, val = v\<rparr> # entries s"
      by (auto split: if_splits)
    have "entries s \<noteq> [] \<or> \<not> (MaxEntries (self s) \<noteq> 0 \<and> int (length (entries s)) + 1 > MaxEntries (self s))"
      using ne by auto
    with c have "\<lparr>key = k, val = v\<rparr> \<in> set (entries s')" by (auto split: if_splits)
    with a show ?thesis by blast
  qed
  then obtain s' where a: "Add k v s = Inr s'" and w': "wf s'"
    and i: "\<lparr>key = k, val = v\<rparr> \<in> set (entries s')" by blast
  from i have "lookup s' k = Some v" using lookup_entries[OF w'] by simp
  from Get_hit_abstract[OF w' this] a show ?thesis by (auto simp: Add_Get_def)
qed

text \<open>Claim C5 at the cache of the example.\<close>

theorem Add_then_Get_witness:
  "wf st_ab \<and> (0 \<le> MaxEntries (self st_ab) \<or> entries st_ab \<noteq> []) \<and>
   Add_Get ''c'' 3 st_ab = Inr (Some 3, True)"
proof -
  have h: "0 \<le> MaxEntries (self st_ab) \<or> entries st_ab \<noteq> []" by (simp add: st_ab_def)
  from Add_then_Get[OF wf_st_ab h, of "''c''" 3] wf_st_ab h show ?thesis by simp
qed

text \<open>
  Claim C5 as stated holds of every cache.  In \<^verbatim>\<open>New(-1)\<close> the length 1 after the
  insertion exceeds \<^verbatim>\<open>MaxEntries\<close>, \<^verbatim>\<open>RemoveOldest\<close> removes the entry just
  inserted, and \<^verbatim>\<open>Get\<close> misses.
\<close>

theorem Add_then_Get_counterexample:
  "Add_Get ''a'' (1::nat) (init (New (- 1)) ()) = Inr (None, False)"
  by (simp add: Add_Get_def Add_def Let_def init_def New_def list_New_def RemoveOldest_def
      removeElement_def map_delete_def Get_def)

text \<open>
  Claim C7.  In a cache holding \<open>n\<close> entries, \<^verbatim>\<open>Clear\<close> applies \<^verbatim>\<open>OnEvicted\<close>
  (when it is set) to a sequence \<open>calls\<close> of \<open>n\<close> entries that is a permutation of the
  stored entries, whatever the order in which the map is ranged over; afterwards
  \<^verbatim>\<open>Len\<close> returns 0.
\<close>

theorem Clear_calls_OnEvicted_once_per_entry:
  assumes w: "wf s" and ro: "range_order (cache (self s)) ks"
  shows "\<exists>s' calls. Clear ks s = Inr s' \<and> mset calls = mset (entries s) \<and>
           Len s = Inr (int (length calls)) \<and>
           world s' = (case OnEvicted (self s) of
                         None \<Rightarrow> world s
                       | Some f \<Rightarrow> fold (\<lambda>x. f (key x) (val x)) calls (world s)) \<and>
           Len s' = Inr 0 \<and> entries s' = [] \<and> keys s' = {}"
proof -
  from Clear_effect[of ks s] obtain s' where
    c: "Clear ks s = Inr s'" "ll (self s') = None" "cache (self s') = None" by blast
  then have z: "Len s' = Inr 0" "entries s' = []" "keys s' = {}"
    by (simp_all add: Len_def entries_def keys_def)
  have w': "world s' = (case OnEvicted (self s) of
                 None \<Rightarrow> world s
               | Some f \<Rightarrow>
                   (case cache (self s) of
                      None \<Rightarrow> world s
                    | Some mp \<Rightarrow>
                        fold (\<lambda>k w. case mp k of
                                      None \<Rightarrow> w
                                    | Some e \<Rightarrow> f (key (heap s ! e)) (val (heap s ! e)) w)
                          ks (world s)))"
    using c(1) by (auto simp: Clear_def Let_def)
  from w show ?thesis
  proof (cases rule: wf_cases)
    case nil
    then have "entries s = []" by (simp add: entries_def)
    moreover have "world s' = world s" using w' nil by (simp split: option.splits)
    ultimately have "mset [] = mset (entries s) \<and> Len s = Inr (int (length ([] :: ('a, 'b) entry list))) \<and>
        world s' = (case OnEvicted (self s) of
                         None \<Rightarrow> world s
                       | Some f \<Rightarrow> fold (\<lambda>x. f (key x) (val x)) [] (world s))"
      using nil by (simp add: Len_def split: option.splits)
    with c(1) z show ?thesis by blast
  next
    case (init xs mp)
    from ro init(2) have ks: "distinct ks" "set ks = dom mp" by (simp_all add: range_order_def)
    let ?es = "map (\<lambda>k. the (mp k)) ks"
    let ?calls = "map (\<lambda>e. heap s ! e) ?es"
    have ms: "mset ?es = mset xs" using range_visits_elements[OF w init(1,2) ks] .
    have "mset ?calls = image_mset (\<lambda>e. heap s ! e) (mset ?es)" by (rule mset_map)
    also have "\<dots> = mset (entries s)" unfolding ms using init(1) by (simp add: entries_def)
    finally have m1: "mset ?calls = mset (entries s)" .
    then have "length ?calls = length (entries s)" by (rule mset_eq_length)
    then have m2: "Len s = Inr (int (length ?calls))" using Len_wf[OF w] by simp
    have m3: "world s' = (case OnEvicted (self s) of
                         None \<Rightarrow> world s
                       | Some f \<Rightarrow> fold (\<lambda>x. f (key x) (val x)) ?calls (world s))"
    proof (cases "OnEvicted (self s)")
      case None
      then show ?thesis using w' by simp
    next
      case (Some f)
      have "fold (\<lambda>k w. case mp k of None \<Rightarrow> w
                         | Some e \<Rightarrow> f (key (heap s ! e)) (val (heap s ! e)) w) ks (world s) =
            fold (\<lambda>e w. f (key (heap s ! e)) (val (heap s ! e)) w) ?es (world s)"
        using fold_range[of ks mp "\<lambda>e w. f (key (heap s ! e)) (val (heap s ! e)) w"] ks(2)
        by simp
      also have "\<dots> = fold (\<lambda>x. f (key x) (val x)) ?calls (world s)"
        by (simp add: fold_map comp_def)
      finally show ?thesis using w' Some init(2) by simp
    qed
    from c(1) m1 m2 m3 z show ?thesis by blast
  qed
qed

text \<open>Claim C7 at the cache of the example.\<close>

theorem Clear_calls_OnEvicted_once_per_entry_witness:
  "wf st_ab \<and> range_order (cache (self st_ab)) [''b'', ''a''] \<and>
   observe (Clear [''b'', ''a''] st_ab) = Inr ([], [(''b'', 2), (''a'', 1)]) \<and>
   (\<exists>s' calls. Clear [''b'', ''a''] st_ab = Inr s' \<and> mset calls = mset (entries st_ab) \<and>
      Len st_ab = Inr (int (length calls)) \<and> Len s' = Inr 0)"
proof -
  have r: "range_order (cache (self st_ab)) [''b'', ''a'']"
    by (auto simp: range_order_def st_ab_def)
  have o: "observe (Clear [''b'', ''a''] st_ab) = Inr ([], [(''b'', 2), (''a'', 1)])"
    by (simp add: Clear_def Let_def st_ab_def observe_def entries_def record_call_def)
  from Clear_calls_OnEvicted_once_per_entry[OF wf_st_ab r] wf_st_ab r o
  show ?thesis by blast
qed

text \<open>
  Claim C8.  On a cache whose map is nil no operation panics: \<^verbatim>\<open>Len\<close> returns 0,
  \<^verbatim>\<open>Get\<close> returns the zero value and false, \<^verbatim>\<open>Remove\<close> and \<^verbatim>\<open>RemoveOldest\<close>
  change nothing, \<^verbatim>\<open>Clear\<close> calls nothing, and \<^verbatim>\<open>Add\<close> makes the list and the map
  before it inserts.
\<close>

theorem uninitialized_total:
  assumes "cache (self s) = None"
  shows "Len s = Inr 0 \<and> Get k s = Inr ((None, False), s) \<and> Remove k s = Inr s \<and>
         RemoveOldest s = Inr s \<and>
         Clear ks s = Inr (s\<lparr>self := (self s)\<lparr>ll := None\<rparr>\<rparr>) \<and>
         (\<exists>s' xs mp. Add k v s = Inr s' \<and> ll (self s') = Some xs \<and> cache (self s') = Some mp \<and>
            wf s' \<and>
            entries s' = (if MaxEntries (self s) < 0 then [] else [\<lparr>key = k, val = v\<rparr>]))"
proof -
  let ?s1 = "s\<lparr>self := (self s)\<lparr>ll := Some [length (heap s)],
                                   cache := Some [k \<mapsto> length (heap s)]\<rparr>,
                  heap := heap s @ [\<lparr>key = k, val = v\<rparr>]\<rparr>"
  let ?s2 = "s\<lparr>self := (self s)\<lparr>ll := Some [], cache := Some Map.empty\<rparr>,
                  heap := heap s @ [\<lparr>key = k, val = v\<rparr>],
                  world := (case OnEvicted (self s) of None \<Rightarrow> world s
                            | Some f \<Rightarrow> f k v (world s))\<rparr>"
  have c: "Clear ks s = Inr (s\<lparr>self := (self s)\<lparr>ll := None\<rparr>\<rparr>)"
  proof -
    have "(self s)\<lparr>ll := None, cache := None\<rparr> = (self s)\<lparr>ll := None\<rparr>"
      using assms by (cases "self s") simp
    moreover have "s\<lparr>self := (self s)\<lparr>ll := None\<rparr>, world := world s\<rparr> = s\<lparr>self := (self s)\<lparr>ll := None\<rparr>\<rparr>"
      by simp
    ultimately show ?thesis using assms by (simp add: Clear_def Let_def split: option.splits)
  qed
  have "Add k v s = (if MaxEntries (self s) < 0 then Inr ?s2 else Inr ?s1)"
    using assms
    by (cases "OnEvicted (self s)")
       (auto simp: Add_new_nil Let_def RemoveOldest_def removeElement_def map_delete_def)
  moreover have "wf ?s1" by (simp add: wf_def)
  moreover have "wf ?s2" by (simp add: wf_def)
  moreover have "entries ?s1 = [\<lparr>key = k, val = v\<rparr>]" "entries ?s2 = []"
    by (simp_all add: entries_def)
  ultimately have "\<exists>s' xs mp. Add k v s = Inr s' \<and> ll (self s') = Some xs \<and> cache (self s') = Some mp \<and>
            wf s' \<and>
            entries s' = (if MaxEntries (self s) < 0 then [] else [\<lparr>key = k, val = v\<rparr>])"
    by (cases "MaxEntries (self s) < 0") simp_all
  moreover have "Len s = Inr 0" using assms by (simp add: Len_def)
  moreover have "Get k s = Inr ((None, False), s)" using assms by (simp add: Get_def)
  moreover have "Remove k s = Inr s" using assms by (simp add: Remove_def)
  moreover have "RemoveOldest s = Inr s" using assms by (simp add: RemoveOldest_def)
  ultimately show ?thesis using c by blast
qed

text \<open>Claim C8 at the zero value.\<close>

theorem uninitialized_total_witness:
  "cache (self st_zero) = None \<and>
   Len st_zero = Inr 0 \<and>
   Get ''a'' st_zero = Inr ((None, False), st_zero) \<and>
   Remove ''a'' st_zero = Inr st_zero \<and>
   RemoveOldest st_zero = Inr st_zero \<and>
   observe (Clear [] st_zero) = Inr ([], ()) \<and>
   observe (Add ''a'' 1 st_zero) = Inr ([\<lparr>key = ''a'', val = 1\<rparr>], ())"
proof -
  have h: "cache (self st_zero) = None"
    by (simp add: st_zero_def init_def zero_Cache_def)
  have mp: "\<not> MaxEntries (self st_zero) < 0"
    by (simp add: st_zero_def init_def zero_Cache_def)
  note t = uninitialized_total[OF h, of "''a''" "[]" 1]
  from t obtain s' where a: "Add ''a'' 1 st_zero = Inr s'"
    and e: "entries s' = (if MaxEntries (self st_zero) < 0 then [] else [\<lparr>key = ''a'', val = 1\<rparr>])"
    by blast
  have 1: "observe (Add ''a'' 1 st_zero) = Inr ([\<lparr>key = ''a'', val = 1\<rparr>], ())"
    unfolding a using e mp by (simp add: observe_def)
  from t have c: "Clear [] st_zero = Inr (st_zero\<lparr>self := (self st_zero)\<lparr>ll := None\<rparr>\<rparr>)"
    by blast
  have 2: "observe (Clear [] st_zero) = Inr ([], ())"
    unfolding c by (simp add: observe_def entries_def)
  from t h 1 2 show ?thesis by blast
qed

text \<open>
  Claim C9.  \<^verbatim>\<open>Get\<close> of a key that is not in the lookup mapping returns the zero value
  and false and leaves the whole state as it was: the list, the map, the store and the
  world.
\<close>

theorem Get_absent:
  assumes "k \<notin> keys s"
  shows "Get k s = Inr ((None, False), s)"
proof (cases "cache (self s)")
  case None
  then show ?thesis by (simp add: Get_def)
next
  case (Some mp)
  with assms have "mp k = None" by (auto simp: keys_def)
  with Some show ?thesis by (simp add: Get_def)
qed

text \<open>Claim C9 at the cache of the example.\<close>

theorem Get_absent_witness:
  "''z'' \<notin> keys st_ab \<and> Get ''z'' st_ab = Inr ((None, False), st_ab)"
proof -
  have h: "''z'' \<notin> keys st_ab" by (simp add: keys_st_ab)
  from Get_absent[OF h] h show ?thesis by simp
qed

text \<open>
  Claim C10.  \<^verbatim>\<open>Clear\<close> changes no field of the cache but \<^verbatim>\<open>ll\<close> and
  \<^verbatim>\<open>cache\<close>, which become nil: \<^verbatim>\<open>MaxEntries\<close> and \<^verbatim>\<open>OnEvicted\<close> stay.
\<close>

theorem Clear_keeps_configuration:
  "\<exists>s'. Clear ks s = Inr s' \<and> MaxEntries (self s') = MaxEntries (self s) \<and>
        OnEvicted (self s') = OnEvicted (self s) \<and> ll (self s') = None \<and> cache (self s') = None \<and>
        self s' = (self s)\<lparr>ll := None, cache := None\<rparr>"
  by (simp add: Clear_def Let_def)


section \<open>Package singleflight: proofs\<close>

subsection \<open>The store of call records\<close>

lemma length_set_result [simp]: "length (set_result c v e cs) = length cs"
  by (simp add: set_result_def)

lemma length_wg_Done [simp]: "length (wg_Done c cs) = length cs"
  by (simp add: wg_Done_def)

lemma wg_set_result [simp]: "wg (set_result c v e cs ! d) = wg (cs ! d)"
  by (cases "c < length cs"; cases "d = c") (simp_all add: set_result_def list_update_beyond)

lemma val_set_result [simp]:
  "call.val (set_result c v e cs ! d) = (if d = c \<and> c < length cs then v else call.val (cs ! d))"
  by (cases "c < length cs"; cases "d = c") (simp_all add: set_result_def list_update_beyond)

lemma err_set_result [simp]:
  "err (set_result c v e cs ! d) = (if d = c \<and> c < length cs then e else err (cs ! d))"
  by (cases "c < length cs"; cases "d = c") (simp_all add: set_result_def list_update_beyond)

lemma wg_wg_Done [simp]:
  "wg (wg_Done c cs ! d) = (if d = c \<and> c < length cs then wg (cs ! c) - 1 else wg (cs ! d))"
  by (cases "c < length cs"; cases "d = c") (simp_all add: wg_Done_def list_update_beyond)

lemma val_wg_Done [simp]: "call.val (wg_Done c cs ! d) = call.val (cs ! d)"
  by (cases "c < length cs"; cases "d = c") (simp_all add: wg_Done_def list_update_beyond)

lemma err_wg_Done [simp]: "err (wg_Done c cs ! d) = err (cs ! d)"
  by (cases "c < length cs"; cases "d = c") (simp_all add: wg_Done_def list_update_beyond)

lemma new_call_fields [simp]:
  "wg new_call = 1" "call.val new_call = None" "err new_call = None"
  by (simp_all add: new_call_def)

lemma step_cases [consumes 1, case_names call lock1 crit1_panic found new wait fn done_panic
    finish lock2 crit2_panic crit2 return]:
  assumes "step prog t s = Some s'"
  obtains
    (call) "thr s t = NotCalled" "s' = s\<lparr>thr := (thr s)(t := AtLock1)\<rparr>"
  | (lock1) "thr s t = AtLock1" "\<not> mu (grp s)"
      "s' = s\<lparr>grp := (grp s)\<lparr>mu := True\<rparr>, thr := (thr s)(t := InCrit1)\<rparr>"
  | (crit1_panic) "thr s t = InCrit1" "\<not> mu (grp s)" "s' = s\<lparr>thr := (thr s)(t := Panicked)\<rparr>"
  | (found) mp c where "thr s t = InCrit1" "mu (grp s)"
      "mp = (case m (grp s) of None \<Rightarrow> Map.empty | Some mp \<Rightarrow> mp)"
      "mp (fst (prog t)) = Some c"
      "s' = s\<lparr>grp := \<lparr>mu = False, m = Some mp\<rparr>, thr := (thr s)(t := AtWait c)\<rparr>"
  | (new) mp where "thr s t = InCrit1" "mu (grp s)"
      "mp = (case m (grp s) of None \<Rightarrow> Map.empty | Some mp \<Rightarrow> mp)"
      "mp (fst (prog t)) = None"
      "s' = s\<lparr>grp := \<lparr>mu = False, m = Some (mp(fst (prog t) \<mapsto> length (mem s)))\<rparr>,
              mem := mem s @ [new_call], thr := (thr s)(t := AtFn (length (mem s)))\<rparr>"
  | (wait) c where "thr s t = AtWait c" "wg (mem s ! c) = 0"
      "s' = s\<lparr>thr := (thr s)(t := AtReturn c)\<rparr>"
  | (fn) c v e w where "thr s t = AtFn c" "snd (prog t) (env s) = ((v, e), w)"
      "s' = s\<lparr>mem := set_result c v e (mem s), env := w, fn_log := fn_log s @ [(t, c, v, e)],
              thr := (thr s)(t := AtDone c)\<rparr>"
  | (done_panic) c where "thr s t = AtDone c" "wg (mem s ! c) = 0"
      "s' = s\<lparr>thr := (thr s)(t := Panicked)\<rparr>"
  | (finish) c where "thr s t = AtDone c" "wg (mem s ! c) \<noteq> 0"
      "s' = s\<lparr>mem := wg_Done c (mem s), thr := (thr s)(t := AtLock2 c)\<rparr>"
  | (lock2) c where "thr s t = AtLock2 c" "\<not> mu (grp s)"
      "s' = s\<lparr>grp := (grp s)\<lparr>mu := True\<rparr>, thr := (thr s)(t := InCrit2 c)\<rparr>"
  | (crit2_panic) c where "thr s t = InCrit2 c" "\<not> mu (grp s)"
      "s' = s\<lparr>thr := (thr s)(t := Panicked)\<rparr>"
  | (crit2) c where "thr s t = InCrit2 c" "mu (grp s)"
      "s' = s\<lparr>grp := \<lparr>mu = False,
                       m = (case m (grp s) of None \<Rightarrow> None
                            | Some mp \<Rightarrow> Some (mp(fst (prog t) := None)))\<rparr>,
              thr := (thr s)(t := AtReturn c)\<rparr>"
  | (return) c where "thr s t = AtReturn c"
      "s' = s\<lparr>thr := (thr s)(t := Returned c (call.val (mem s ! c)) (err (mem s ! c)))\<rparr>"
proof (cases "thr s t")
  case NotCalled
  with assms call show ?thesis by (simp add: step_def)
next
  case AtLock1
  with assms lock1 show ?thesis by (simp add: step_def split: if_splits)
next
  case InCrit1
  show ?thesis
  proof (cases "mu (grp s)")
    case False
    with InCrit1 assms crit1_panic show ?thesis by (simp add: step_def)
  next
    case True
    let ?mp = "case m (grp s) of None \<Rightarrow> Map.empty | Some mp \<Rightarrow> mp"
    show ?thesis
    proof (cases "?mp (fst (prog t))")
      case None
      with True InCrit1 assms new[of ?mp] show ?thesis by (simp add: step_def Let_def)
    next
      case (Some c)
      with True InCrit1 assms found[of ?mp c] show ?thesis by (simp add: step_def Let_def)
    qed
  qed
next
  case (AtWait c)
  with assms wait show ?thesis by (simp add: step_def split: if_splits)
next
  case (AtFn c)
  obtain v e w where "snd (prog t) (env s) = ((v, e), w)"
    by (metis prod.exhaust)
  with AtFn assms fn show ?thesis by (simp add: step_def)
next
  case (AtDone c)
  with assms done_panic finish show ?thesis by (simp add: step_def split: if_splits)
next
  case (AtLock2 c)
  with assms lock2 show ?thesis by (simp add: step_def split: if_splits)
next
  case (InCrit2 c)
  with assms crit2_panic crit2 show ?thesis by (simp add: step_def split: if_splits)
next
  case (AtReturn c)
  with assms return show ?thesis by (simp add: step_def)
next
  case (Returned c v e)
  with assms show ?thesis by (simp add: step_def)
next
  case Panicked
  with assms show ?thesis by (simp add: step_def)
qed

subsection \<open>The invariant is kept by every step\<close>

lemma runs_for_simps [simp]:
  "runs_for c (s\<lparr>thr := x\<rparr>) = runs_for c s"
  "runs_for c (s\<lparr>grp := y\<rparr>) = runs_for c s"
  "runs_for c (s\<lparr>mem := z\<rparr>) = runs_for c s"
  "runs_for c (s\<lparr>env := w\<rparr>) = runs_for c s"
  "runs_for c (s\<lparr>fn_log := fn_log s @ [(t, d, v, e)]\<rparr>) =
     runs_for c s @ (if d = c then [(t, d, v, e)] else [])"
  by (simp_all add: runs_for_def)

lemma holds_bound:
  assumes "inv_sys s" "holds (thr s t) c"
  shows "c < length (mem s)"
  using assms by (auto simp: inv_sys_def inv_bounds_def)

lemma inv_bounds_step:
  assumes i: "inv_sys s" and st: "step prog t s = Some s'"
  shows "inv_bounds s'"
proof -
  have hb: "c < length (mem s)" if "holds (thr s u) c" for u c
    using holds_bound[OF i that] .
  have mb: "c < length (mem s)" if "m (grp s) = Some mp" "mp k = Some c" for mp k c
    using i that by (auto simp: inv_sys_def inv_bounds_def)
  have lb: "fst (snd r) < length (mem s)" if "r \<in> set (fn_log s)" for r
    using i that by (auto simp: inv_sys_def inv_bounds_def)
  from st show ?thesis
  proof (cases rule: step_cases)
    case (found mp c)
    then have "c < length (mem s)" using mb[of _ "fst (prog t)" c]
      by (cases "m (grp s)") auto
    with found show ?thesis using hb mb lb
      by (auto simp: inv_bounds_def split: option.splits if_splits)
  next
    case (new mp)
    then show ?thesis using hb mb lb
      by (auto simp: inv_bounds_def less_Suc_eq split: option.splits if_splits)
  next
    case (crit2 c)
    then have "c < length (mem s)" using hb[of t c] by simp
    with crit2 show ?thesis using hb mb lb
      by (auto simp: inv_bounds_def split: option.splits if_splits)
  next
    case (wait c)
    then have "c < length (mem s)" using hb[of t c] by simp
    with wait show ?thesis using hb mb lb by (auto simp: inv_bounds_def split: if_splits)
  next
    case (fn c v e w)
    then have "c < length (mem s)" using hb[of t c] by simp
    with fn show ?thesis using hb mb lb by (auto simp: inv_bounds_def split: if_splits)
  next
    case (finish c)
    then have "c < length (mem s)" using hb[of t c] by simp
    with finish show ?thesis using hb mb lb by (auto simp: inv_bounds_def split: if_splits)
  next
    case (lock2 c)
    then have "c < length (mem s)" using hb[of t c] by simp
    with lock2 show ?thesis using hb mb lb by (auto simp: inv_bounds_def split: if_splits)
  next
    case (return c)
    then have "c < length (mem s)" using hb[of t c] by simp
    with return show ?thesis using hb mb lb by (auto simp: inv_bounds_def split: if_splits)
  qed (use hb mb lb in \<open>auto simp: inv_bounds_def split: if_splits\<close>)
qed

lemma busy_wg:
  assumes "inv_sys s" "busy (thr s t) c"
  shows "wg (mem s ! c) = 1"
proof -
  from assms have "holds (thr s t) c" by (cases "thr s t") auto
  with assms(1) have "c < length (mem s)" by (rule holds_bound)
  with assms show ?thesis by (auto simp: inv_sys_def inv_record_def)
qed

lemma inv_mutex_step:
  assumes i: "inv_sys s" and st: "step prog t s = Some s'"
  shows "inv_mutex s'"
proof -
  have a: "mu (grp s)" if "incrit (thr s u)" for u
    using i that by (auto simp: inv_sys_def inv_mutex_def)
  have b: "u = u'" if "incrit (thr s u)" "incrit (thr s u')" for u u'
    using i that by (auto simp: inv_sys_def inv_mutex_def)
  have c: "thr s u \<noteq> Panicked" for u
    using i by (auto simp: inv_sys_def inv_mutex_def)
  from st show ?thesis
  proof (cases rule: step_cases)
    case (done_panic c)
    with busy_wg[OF i, of t c] show ?thesis by simp
  next
    case crit1_panic
    with a[of t] show ?thesis by simp
  next
    case (crit2_panic c)
    with a[of t] show ?thesis by simp
  next
    case lock1
    then have "\<not> incrit (thr s u)" for u using a[of u] by auto
    with lock1 c show ?thesis by (auto simp: inv_mutex_def)
  next
    case (lock2 c')
    then have "\<not> incrit (thr s u)" for u using a[of u] by auto
    with lock2 c show ?thesis by (auto simp: inv_mutex_def)
  next
    case (found mp c')
    then have "\<not> incrit (thr s u)" if "u \<noteq> t" for u using b[of t u] that by auto
    with found c show ?thesis by (auto simp: inv_mutex_def)
  next
    case (new mp)
    then have "\<not> incrit (thr s u)" if "u \<noteq> t" for u using b[of t u] that by auto
    with new c show ?thesis by (auto simp: inv_mutex_def)
  next
    case (crit2 c')
    then have "\<not> incrit (thr s u)" if "u \<noteq> t" for u using b[of t u] that by auto
    with crit2 c show ?thesis by (auto simp: inv_mutex_def)
  next
    case call
    then show ?thesis using a b c by (auto simp: inv_mutex_def)
  next
    case (wait c')
    then show ?thesis using a b c by (auto simp: inv_mutex_def)
  next
    case (fn c' v e w)
    then show ?thesis using a b c by (auto simp: inv_mutex_def)
  next
    case (finish c')
    then show ?thesis using a b c by (auto simp: inv_mutex_def)
  next
    case (return c')
    then show ?thesis using a b c by (auto simp: inv_mutex_def)
  qed
qed

lemma busy_holds: "busy p c \<Longrightarrow> holds p c"
  by (cases p) auto

lemma past_holds: "past p c \<Longrightarrow> holds p c"
  by (cases p) auto

lemma AtFn_busy: "p = AtFn c \<Longrightarrow> busy p c"
  by simp

lemma inv_record_same:
  assumes "inv_record s" "mem s' = mem s" "fn_log s' = fn_log s"
    and "\<And>u c. busy (thr s' u) c = busy (thr s u) c"
    and "\<And>u c. (thr s' u = AtFn c) = (thr s u = AtFn c)"
  shows "inv_record s'"
proof -
  have r: "runs_for c s' = runs_for c s" for c using assms(3) by (simp add: runs_for_def)
  show ?thesis
    unfolding inv_record_def assms(2) assms(4) assms(5) r
    using assms(1)[unfolded inv_record_def] .
qed

lemma inv_record_step:
  assumes i: "inv_sys s" and st: "step prog t s = Some s'"
  shows "inv_record s'"
proof -
  have ir: "inv_record s" using i by (simp add: inv_sys_def)
  have hb: "c < length (mem s)" if "holds (thr s u) c" for u c
    using holds_bound[OF i that] .
  have lb: "fst (snd r) < length (mem s)" if "r \<in> set (fn_log s)" for r
    using i that by (auto simp: inv_sys_def inv_bounds_def)
  have R1: "u = u'" if "busy (thr s u) c" "busy (thr s u') c" for u u' c
  proof -
    from that(1) have "c < length (mem s)" using hb busy_holds by blast
    with ir that show ?thesis unfolding inv_record_def by blast
  qed
  have R2: "wg (mem s ! c) = (if \<exists>t. busy (thr s t) c then 1 else 0)" if "c < length (mem s)" for c
    using ir that unfolding inv_record_def by blast
  have R1': "\<forall>t u. busy (thr s t) c \<and> busy (thr s u) c \<longrightarrow> t = u" for c
    using R1 by blast
  have R3: "if \<exists>t. thr s t = AtFn c then runs_for c s = []
         else \<exists>t0. runs_for c s = [(t0, c, call.val (mem s ! c), err (mem s ! c))]"
    if "c < length (mem s)" for c
    using ir that unfolding inv_record_def by blast
  have mtx: "mu (grp s)" if "incrit (thr s u)" for u
    using i that by (auto simp: inv_sys_def inv_mutex_def)
  from st show ?thesis
  proof (cases rule: step_cases)
    case call
    show ?thesis by (rule inv_record_same[OF ir]) (use call in auto)
  next
    case lock1
    show ?thesis by (rule inv_record_same[OF ir]) (use lock1 in auto)
  next
    case crit1_panic
    with mtx[of t] show ?thesis by simp
  next
    case (found mp c)
    show ?thesis by (rule inv_record_same[OF ir]) (use found in auto)
  next
    case (wait c)
    show ?thesis by (rule inv_record_same[OF ir]) (use wait in auto)
  next
    case (done_panic c)
    with busy_wg[OF i, of t c] show ?thesis by simp
  next
    case (lock2 c)
    show ?thesis by (rule inv_record_same[OF ir]) (use lock2 in auto)
  next
    case (crit2_panic c)
    with mtx[of t] show ?thesis by simp
  next
    case (crit2 c)
    show ?thesis by (rule inv_record_same[OF ir]) (use crit2 in auto)
  next
    case (return c)
    show ?thesis by (rule inv_record_same[OF ir]) (use return in auto)
  next
    case (new mp)
    let ?c = "length (mem s)"
    have nb: "\<not> busy (thr s u) ?c" for u
      using hb[of u ?c] busy_holds by blast
    have nl: "runs_for ?c s = []"
    proof -
      have "fst (snd r) \<noteq> ?c" if "r \<in> set (fn_log s)" for r using lb[OF that] by simp
      then show ?thesis by (simp add: runs_for_def filter_empty_conv)
    qed
    have bs: "busy (thr s' u) c = (busy (thr s u) c \<or> (u = t \<and> c = ?c))" for u c
      using new(1,5) by auto
    have fs: "(thr s' u = AtFn c) = (thr s u = AtFn c \<or> (u = t \<and> c = ?c))" for u c
      using new(1,5) by auto
    have ms: "mem s' = mem s @ [new_call]" and ls: "fn_log s' = fn_log s"
      using new(5) by simp_all
    show ?thesis unfolding inv_record_def
    proof (intro allI impI)
      fix c assume "c < length (mem s')"
      then consider "c < ?c" | "c = ?c" using ms by (auto simp: less_Suc_eq)
      then show "(\<forall>t u. busy (thr s' t) c \<and> busy (thr s' u) c \<longrightarrow> t = u) \<and>
        wg (mem s' ! c) = (if \<exists>t. busy (thr s' t) c then 1 else 0) \<and>
        (if \<exists>t. thr s' t = AtFn c then runs_for c s' = []
         else \<exists>t0. runs_for c s' = [(t0, c, call.val (mem s' ! c), err (mem s' ! c))])"
      proof cases
        case 1
        then have e: "mem s' ! c = mem s ! c" using ms by (simp add: nth_append)
        have b: "busy (thr s' u) c = busy (thr s u) c" for u using bs 1 by simp
        have f: "(thr s' u = AtFn c) = (thr s u = AtFn c)" for u using fs 1 by simp
        have r: "runs_for c s' = runs_for c s" using ls by (simp add: runs_for_def)
        from R1'[of c] R2[OF 1] R3[OF 1] show ?thesis unfolding e b f r by simp
      next
        case 2
        have e: "mem s' ! c = new_call" using ms 2 by simp
        have b: "busy (thr s' u) c = (u = t)" for u using bs nb 2 by simp
        have f: "(thr s' u = AtFn c) = (u = t)" for u using fs nb[of u] 2 by auto
        have r: "runs_for c s' = []" using ls nl 2 by (simp add: runs_for_def)
        show ?thesis unfolding e b f r by simp
      qed
    qed
  next
    case (fn c v e w)
    have cb: "c < length (mem s)" using hb[of t c] fn(1) by simp
    have uq: "u = t" if "busy (thr s u) c" for u using R1[of u c t] that fn(1) by simp
    have bs: "busy (thr s' u) d = busy (thr s u) d" for u d
      using fn(1,3) by auto
    have fs: "(thr s' u = AtFn d) = (thr s u = AtFn d \<and> u \<noteq> t)" for u d
      using fn(1,3) by auto
    have ms: "mem s' = set_result c v e (mem s)"
      and ls: "fn_log s' = fn_log s @ [(t, c, v, e)]"
      using fn(3) by simp_all
    show ?thesis unfolding inv_record_def
    proof (intro allI impI)
      fix d assume "d < length (mem s')"
      then have db: "d < length (mem s)" using ms by simp
      show "(\<forall>t u. busy (thr s' t) d \<and> busy (thr s' u) d \<longrightarrow> t = u) \<and>
        wg (mem s' ! d) = (if \<exists>t. busy (thr s' t) d then 1 else 0) \<and>
        (if \<exists>t. thr s' t = AtFn d then runs_for d s' = []
         else \<exists>t0. runs_for d s' = [(t0, d, call.val (mem s' ! d), err (mem s' ! d))])"
      proof (cases "d = c")
        case False
        have f: "(thr s' u = AtFn d) = (thr s u = AtFn d)" for u
          using fs[of u d] fn(1) False by auto
        have r: "runs_for d s' = runs_for d s" using ls False by (simp add: runs_for_def)
        have v: "call.val (mem s' ! d) = call.val (mem s ! d)" "err (mem s' ! d) = err (mem s ! d)"
          "wg (mem s' ! d) = wg (mem s ! d)"
          using ms False by simp_all
        from R1'[of d] R2[OF db] R3[OF db] show ?thesis unfolding bs f r v by simp
      next
        case True
        have nf: "\<not> (\<exists>u. thr s' u = AtFn d)"
        proof
          assume "\<exists>u. thr s' u = AtFn d"
          then obtain u where u: "thr s u = AtFn d" "u \<noteq> t" using fs by blast
          then have "busy (thr s u) c" using True by simp
          with uq u(2) show False by blast
        qed
        have "\<exists>u. thr s u = AtFn c" using fn(1) by blast
        with R3[OF cb] have "runs_for c s = []" by simp
        then have r: "runs_for d s' = [(t, d, v, e)]" using ls True by (simp add: runs_for_def)
        have v: "call.val (mem s' ! d) = v" "err (mem s' ! d) = e"
          "wg (mem s' ! d) = wg (mem s ! d)"
          using ms True cb by simp_all
        from R1'[of d] R2[OF db] nf show ?thesis unfolding bs r v by simp
      qed
    qed
  next
    case (finish c)
    have cb: "c < length (mem s)" using hb[of t c] finish(1) by simp
    have uq: "u = t" if "busy (thr s u) c" for u using R1[of u c t] that finish(1) by simp
    have bs: "busy (thr s' u) d = (busy (thr s u) d \<and> u \<noteq> t)" for u d
      using finish(1,3) by auto
    have fs: "(thr s' u = AtFn d) = (thr s u = AtFn d)" for u d
      using finish(1,3) by auto
    have ms: "mem s' = wg_Done c (mem s)" and ls: "fn_log s' = fn_log s"
      using finish(3) by simp_all
    have r: "runs_for d s' = runs_for d s" for d using ls by (simp add: runs_for_def)
    have w1: "wg (mem s ! c) = 1" using busy_wg[OF i, of t c] finish(1) by simp
    show ?thesis unfolding inv_record_def
    proof (intro allI impI)
      fix d assume "d < length (mem s')"
      then have db: "d < length (mem s)" using ms by simp
      have v: "call.val (mem s' ! d) = call.val (mem s ! d)" "err (mem s' ! d) = err (mem s ! d)"
        using ms by simp_all
      show "(\<forall>t u. busy (thr s' t) d \<and> busy (thr s' u) d \<longrightarrow> t = u) \<and>
        wg (mem s' ! d) = (if \<exists>t. busy (thr s' t) d then 1 else 0) \<and>
        (if \<exists>t. thr s' t = AtFn d then runs_for d s' = []
         else \<exists>t0. runs_for d s' = [(t0, d, call.val (mem s' ! d), err (mem s' ! d))])"
      proof (cases "d = c")
        case False
        have b: "busy (thr s' u) d = busy (thr s u) d" for u
          using bs[of u d] finish(1) False by auto
        have w: "wg (mem s' ! d) = wg (mem s ! d)" using ms False by simp
        from R1'[of d] R2[OF db] R3[OF db] show ?thesis unfolding b fs r v w by simp
      next
        case True
        have nb: "\<not> busy (thr s' u) d" for u using bs[of u d] uq[of u] True by auto
        have w: "wg (mem s' ! d) = 0" using ms True cb w1 by simp
        from R3[OF db] show ?thesis unfolding fs r v w using nb by simp
      qed
    qed
  qed
qed

lemma inv_past_step:
  assumes i: "inv_sys s" and st: "step prog t s = Some s'"
  shows "inv_past s'"
proof -
  have hb: "c < length (mem s)" if "holds (thr s u) c" for u c
    using holds_bound[OF i that] .
  have P1: "\<not> busy (thr s u) c" if "past (thr s u') c" for u u' c
    using i that unfolding inv_sys_def inv_past_def by blast
  have P2: "v = call.val (mem s ! c) \<and> e = err (mem s ! c)" if "thr s u = Returned c v e" for u c v e
    using i that unfolding inv_sys_def inv_past_def by blast
  have R1: "u = u'" if "busy (thr s u) c" "busy (thr s u') c" for u u' c
  proof -
    from that(1) have "c < length (mem s)" using hb busy_holds by blast
    with i that show ?thesis unfolding inv_sys_def inv_record_def by blast
  qed
  have R2: "wg (mem s ! c) = (if \<exists>t. busy (thr s t) c then 1 else 0)" if "c < length (mem s)" for c
    using i that unfolding inv_sys_def inv_record_def by blast
  have mtx: "mu (grp s)" if "incrit (thr s u)" for u
    using i that by (auto simp: inv_sys_def inv_mutex_def)
  have same: "inv_past s'"
    if "mem s' = mem s"
      and "\<And>u c. past (thr s' u) c \<Longrightarrow> past (thr s u) c"
      and "\<And>u c. busy (thr s' u) c \<Longrightarrow> busy (thr s u) c"
      and "\<And>u c v e. thr s' u = Returned c v e \<Longrightarrow> thr s u = Returned c v e"
    unfolding inv_past_def that(1)
  proof (intro conjI allI impI)
    fix a b c assume "past (thr s' a) c"
    then have "past (thr s a) c" by (rule that(2))
    then have "\<not> busy (thr s b) c" by (rule P1)
    then show "\<not> busy (thr s' b) c" using that(3) by blast
  next
    fix a c v e assume "thr s' a = Returned c v e"
    then have "thr s a = Returned c v e" by (rule that(4))
    then show "v = call.val (mem s ! c)" "e = err (mem s ! c)" using P2 by blast+
  qed
  from st show ?thesis
  proof (cases rule: step_cases)
    case call
    show ?thesis by (rule same) (use call in \<open>auto split: if_splits\<close>)
  next
    case lock1
    show ?thesis by (rule same) (use lock1 in \<open>auto split: if_splits\<close>)
  next
    case crit1_panic
    with mtx[of t] show ?thesis by simp
  next
    case (found mp c)
    show ?thesis by (rule same) (use found in \<open>auto split: if_splits\<close>)
  next
    case (done_panic c)
    with busy_wg[OF i, of t c] show ?thesis by simp
  next
    case (lock2 c)
    show ?thesis by (rule same) (use lock2 in \<open>auto split: if_splits\<close>)
  next
    case (crit2_panic c)
    with mtx[of t] show ?thesis by simp
  next
    case (crit2 c)
    show ?thesis by (rule same) (use crit2 in \<open>auto split: if_splits\<close>)
  next
    case (wait c)
    have cb: "c < length (mem s)" using hb[of t c] wait(1) by simp
    have nb: "\<not> busy (thr s u) c" for u using R2[OF cb] wait(2) by (auto split: if_splits)
    show ?thesis unfolding inv_past_def
    proof (intro conjI allI impI)
      fix a b d assume "past (thr s' a) d"
      then have "past (thr s a) d \<or> (a = t \<and> d = c)" using wait(1,3) by (auto split: if_splits)
      then have "\<not> busy (thr s b) d" using P1 nb by blast
      then show "\<not> busy (thr s' b) d" using wait(1,3) by (auto split: if_splits)
    next
      fix a d v e assume "thr s' a = Returned d v e"
      then have "thr s a = Returned d v e" using wait(3) by (auto split: if_splits)
      then show "v = call.val (mem s' ! d)" "e = err (mem s' ! d)" using P2 wait(3) by auto
    qed
  next
    case (return c)
    show ?thesis unfolding inv_past_def
    proof (intro conjI allI impI)
      fix a b d assume "past (thr s' a) d"
      then have "past (thr s a) d" using return by (auto split: if_splits)
      then have "\<not> busy (thr s b) d" using P1 by blast
      then show "\<not> busy (thr s' b) d" using return by (auto split: if_splits)
    next
      fix a d v e assume r: "thr s' a = Returned d v e"
      show "v = call.val (mem s' ! d)" "e = err (mem s' ! d)"
        using r return P2[of a d v e] by (auto split: if_splits)
    qed
  next
    case (new mp)
    let ?c = "length (mem s)"
    show ?thesis unfolding inv_past_def
    proof (intro conjI allI impI)
      fix a b d assume p: "past (thr s' a) d"
      then have pa: "past (thr s a) d" using new(1,5) by (auto split: if_splits)
      then have "d < ?c" using hb past_holds by blast
      moreover have "\<not> busy (thr s b) d" using pa P1 by blast
      ultimately show "\<not> busy (thr s' b) d" using new(1,5) by (auto split: if_splits)
    next
      fix a d v e assume "thr s' a = Returned d v e"
      then have r: "thr s a = Returned d v e" using new(5) by (auto split: if_splits)
      then have "d < ?c" using hb[of a d] by simp
      then have "mem s' ! d = mem s ! d" using new(5) by (simp add: nth_append)
      then show "v = call.val (mem s' ! d)" "e = err (mem s' ! d)" using P2[OF r] by simp_all
    qed
  next
    case (fn c v e w)
    have np: "\<not> past (thr s u) c" for u using P1[of u c t] fn(1) by auto
    show ?thesis unfolding inv_past_def
    proof (intro conjI allI impI)
      fix a b d assume p: "past (thr s' a) d"
      then have pa: "past (thr s a) d" using fn(1,3) by (auto split: if_splits)
      then have "d \<noteq> c" using np by blast
      moreover have "\<not> busy (thr s b) d" using pa P1 by blast
      ultimately show "\<not> busy (thr s' b) d" using fn(1,3) by (auto split: if_splits)
    next
      fix a d v' e' assume "thr s' a = Returned d v' e'"
      then have r: "thr s a = Returned d v' e'" using fn(3) by (auto split: if_splits)
      then have "d \<noteq> c" using np[of a] by auto
      then have "call.val (mem s' ! d) = call.val (mem s ! d)" "err (mem s' ! d) = err (mem s ! d)"
        using fn(3) by simp_all
      then show "v' = call.val (mem s' ! d)" "e' = err (mem s' ! d)" using P2[OF r] by simp_all
    qed
  next
    case (finish c)
    have uq: "u = t" if "busy (thr s u) c" for u using R1[of u c t] that finish(1) by simp
    show ?thesis unfolding inv_past_def
    proof (intro conjI allI impI)
      fix a b d assume p: "past (thr s' a) d"
      then have pa: "past (thr s a) d \<or> (a = t \<and> d = c)"
        using finish(1,3) by (auto split: if_splits)
      show "\<not> busy (thr s' b) d"
      proof
        assume bb: "busy (thr s' b) d"
        then have b: "busy (thr s b) d" "b \<noteq> t" using finish(1,3) by (auto split: if_splits)
        from pa show False
        proof
          assume "past (thr s a) d"
          with P1 b(1) show False by blast
        next
          assume "a = t \<and> d = c"
          with uq b show False by blast
        qed
      qed
    next
      fix a d v e assume "thr s' a = Returned d v e"
      then have r: "thr s a = Returned d v e" using finish(3) by (auto split: if_splits)
      show "v = call.val (mem s' ! d)" "e = err (mem s' ! d)" using P2[OF r] finish(3) by simp_all
    qed
  qed
qed

lemma inv_sys_step:
  assumes "inv_sys s" "step prog t s = Some s'"
  shows "inv_sys s'"
  using inv_bounds_step[OF assms] inv_mutex_step[OF assms] inv_record_step[OF assms]
    inv_past_step[OF assms]
  by (simp add: inv_sys_def)

lemma inv_sys0: "inv_sys (sys0 w)"
  by (simp add: inv_sys_def inv_bounds_def inv_mutex_def inv_record_def inv_past_def sys0_def)

lemma inv_sys_exec:
  assumes "inv_sys s" "exec_sched prog sched s = Some s'"
  shows "inv_sys s'"
  using assms
proof (induction sched arbitrary: s)
  case Nil
  then show ?case by simp
next
  case (Cons t ts)
  then obtain s1 where s1: "step prog t s = Some s1" "exec_sched prog ts s1 = Some s'"
    by (auto split: option.splits)
  from inv_sys_step[OF Cons.prems(1) s1(1)] Cons.IH s1(2) show ?case by blast
qed

lemma returned_result:
  assumes i: "inv_sys s" and r: "thr s t = Returned c v e"
  shows "\<exists>t0. runs_for c s = [(t0, c, v, e)]"
proof -
  have cb: "c < length (mem s)" using holds_bound[OF i, of t c] r by simp
  have p: "past (thr s t) c" using r by simp
  have "\<not> (\<exists>u. thr s u = AtFn c)"
  proof
    assume "\<exists>u. thr s u = AtFn c"
    then obtain u where "thr s u = AtFn c" by blast
    then have "busy (thr s u) c" by simp
    with i p show False unfolding inv_sys_def inv_past_def by blast
  qed
  with i cb have "\<exists>t0. runs_for c s = [(t0, c, call.val (mem s ! c), err (mem s ! c))]"
    unfolding inv_sys_def inv_record_def by auto
  moreover have "v = call.val (mem s ! c) \<and> e = err (mem s ! c)"
    using i r unfolding inv_sys_def inv_past_def by blast
  ultimately show ?thesis by simp
qed

lemma owns_holds: "owns p c \<Longrightarrow> holds p c"
  by (cases p) auto

lemma step_thr_other:
  assumes "step prog t s = Some s'" "u \<noteq> t"
  shows "thr s' u = thr s u"
  using assms(1) by (cases rule: step_cases) (use assms(2) in auto)

lemma step_holds:
  assumes i: "inv_sys s" and st: "step prog t s = Some s'" and h: "holds (thr s u) c"
  shows "holds (thr s' u) c"
proof (cases "u = t")
  case False
  with step_thr_other[OF st False] h show ?thesis by simp
next
  case True
  have mtx: "mu (grp s)" if "incrit (thr s u)" for u
    using i that by (auto simp: inv_sys_def inv_mutex_def)
  from st show ?thesis
  proof (cases rule: step_cases)
    case (done_panic c)
    with busy_wg[OF i, of t c] show ?thesis by simp
  next
    case (crit2_panic c)
    with mtx[of t] show ?thesis by simp
  qed (use h True in auto)
qed

lemma inv_lock_step:
  assumes i: "inv_sys s" and l: "inv_lock s" and st: "step prog t s = Some s'"
  shows "inv_lock s'"
proof -
  have mtx: "mu (grp s)" if "incrit (thr s u)" for u
    using i that by (auto simp: inv_sys_def inv_mutex_def)
  have keep: "inv_lock s'"
    if "mu (grp s') = mu (grp s)" "\<not> incrit (thr s t)" "\<not> incrit (thr s' t)"
  proof (cases "mu (grp s)")
    case True
    with l obtain u where u: "incrit (thr s u)" unfolding inv_lock_def by blast
    with that(2) have "u \<noteq> t" by auto
    with step_thr_other[OF st this] u have "incrit (thr s' u)" by simp
    then show ?thesis unfolding inv_lock_def by blast
  next
    case False
    with that(1) show ?thesis by (simp add: inv_lock_def)
  qed
  from st show ?thesis
  proof (cases rule: step_cases)
    case call
    then show ?thesis by (intro keep) auto
  next
    case lock1
    then have "incrit (thr s' t)" by simp
    then show ?thesis unfolding inv_lock_def by blast
  next
    case crit1_panic
    with mtx[of t] show ?thesis by simp
  next
    case (found mp c)
    then show ?thesis by (simp add: inv_lock_def)
  next
    case (new mp)
    then show ?thesis by (simp add: inv_lock_def)
  next
    case (wait c)
    then show ?thesis by (intro keep) auto
  next
    case (fn c v e w)
    then show ?thesis by (intro keep) auto
  next
    case (done_panic c)
    with busy_wg[OF i, of t c] show ?thesis by simp
  next
    case (finish c)
    then show ?thesis by (intro keep) auto
  next
    case (lock2 c)
    then have "incrit (thr s' t)" by simp
    then show ?thesis unfolding inv_lock_def by blast
  next
    case (crit2_panic c)
    with mtx[of t] show ?thesis by simp
  next
    case (crit2 c)
    then show ?thesis by (simp add: inv_lock_def)
  next
    case (return c)
    then show ?thesis by (intro keep) auto
  qed
qed

lemma step_log:
  assumes "step prog t s = Some s'"
  shows "fn_log s' = fn_log s \<or>
         (\<exists>c v e w. snd (prog t) (env s) = ((v, e), w) \<and> thr s' t = AtDone c \<and>
            fn_log s' = fn_log s @ [(t, c, v, e)])"
  using assms by (cases rule: step_cases) auto

lemma inv_log_step:
  assumes i: "inv_sys s" and l: "inv_log prog s" and st: "step prog t s = Some s'"
  shows "inv_log prog s'"
  unfolding inv_log_def
proof
  fix r assume r: "r \<in> set (fn_log s')"
  from step_log[OF st] consider "fn_log s' = fn_log s"
    | c v e w where "snd (prog t) (env s) = ((v, e), w)" "thr s' t = AtDone c"
        "fn_log s' = fn_log s @ [(t, c, v, e)]"
    by blast
  then have "r \<in> set (fn_log s) \<or>
      (holds (thr s' (fst r)) (fst (snd r)) \<and> (\<exists>w. fst (snd (prog (fst r)) w) = snd (snd r)))"
  proof cases
    case 1
    with r show ?thesis by simp
  next
    case (2 c v e w)
    show ?thesis
    proof (cases "r = (t, c, v, e)")
      case True
      have "fst (snd (prog t) (env s)) = (v, e)" using 2(1) by simp
      then have "\<exists>w. fst (snd (prog t) w) = (v, e)" by blast
      with True 2(2) show ?thesis by simp
    next
      case False
      with r 2(3) show ?thesis by simp
    qed
  qed
  then show "holds (thr s' (fst r)) (fst (snd r)) \<and> (\<exists>w. fst (snd (prog (fst r)) w) = snd (snd r))"
  proof
    assume "r \<in> set (fn_log s)"
    with l have "holds (thr s (fst r)) (fst (snd r))" "\<exists>w. fst (snd (prog (fst r)) w) = snd (snd r)"
      unfolding inv_log_def by blast+
    with step_holds[OF i st] show ?thesis by blast
  qed
qed

lemma inv_owner_step:
  assumes i: "inv_sys s" and o: "inv_owner prog s" and st: "step prog t s = Some s'"
  shows "inv_owner prog s'"
proof -
  have O: "\<exists>u. fst (prog u) = k \<and> owns (thr s u) c" if "m (grp s) = Some mp" "mp k = Some c"
    for mp k c
    using o that unfolding inv_owner_def by blast
  have mtx: "mu (grp s)" if "incrit (thr s u)" for u
    using i that by (auto simp: inv_sys_def inv_mutex_def)
  have other: "thr s' u = thr s u" if "u \<noteq> t" for u
    using step_thr_other[OF st that] .
  have keep: "inv_owner prog s'"
    if "m (grp s') = m (grp s)" "\<And>c. owns (thr s t) c \<Longrightarrow> owns (thr s' t) c"
    unfolding inv_owner_def
  proof (intro allI impI)
    fix mp k c assume "m (grp s') = Some mp \<and> mp k = Some c"
    with that(1) O obtain u where u: "fst (prog u) = k" "owns (thr s u) c" by metis
    have "owns (thr s' u) c"
    proof (cases "u = t")
      case True
      with u(2) that(2) show ?thesis by simp
    next
      case False
      with other u(2) show ?thesis by simp
    qed
    with u(1) show "\<exists>t. fst (prog t) = k \<and> owns (thr s' t) c" by blast
  qed
  from st show ?thesis
  proof (cases rule: step_cases)
    case call
    then show ?thesis by (intro keep) auto
  next
    case lock1
    then show ?thesis by (intro keep) auto
  next
    case crit1_panic
    with mtx[of t] show ?thesis by simp
  next
    case (wait c)
    then show ?thesis by (intro keep) auto
  next
    case (fn c v e w)
    then show ?thesis by (intro keep) auto
  next
    case (done_panic c)
    with busy_wg[OF i, of t c] show ?thesis by simp
  next
    case (finish c)
    then show ?thesis by (intro keep) auto
  next
    case (lock2 c)
    then show ?thesis by (intro keep) auto
  next
    case (crit2_panic c)
    with mtx[of t] show ?thesis by simp
  next
    case (return c)
    then show ?thesis by (intro keep) auto
  next
    case (found mp c)
    show ?thesis unfolding inv_owner_def
    proof (intro allI impI)
      fix mp' k d assume a: "m (grp s') = Some mp' \<and> mp' k = Some d"
      then have "mp' = mp" using found(5) by simp
      with a found(3) have "m (grp s) = Some mp" "mp k = Some d"
        by (auto split: option.splits)
      with O obtain u where u: "fst (prog u) = k" "owns (thr s u) d" by blast
      then have "u \<noteq> t" using found(1) by auto
      with other u show "\<exists>t. fst (prog t) = k \<and> owns (thr s' t) d" by auto
    qed
  next
    case (new mp)
    show ?thesis unfolding inv_owner_def
    proof (intro allI impI)
      fix mp' k d assume a: "m (grp s') = Some mp' \<and> mp' k = Some d"
      then have mp': "mp' = mp(fst (prog t) \<mapsto> length (mem s))" using new(5) by simp
      show "\<exists>t. fst (prog t) = k \<and> owns (thr s' t) d"
      proof (cases "k = fst (prog t)")
        case True
        with a mp' have "d = length (mem s)" by simp
        then have "owns (thr s' t) d" using new(5) by simp
        with True show ?thesis by blast
      next
        case False
        with a mp' have "mp k = Some d" by simp
        with new(3) have "m (grp s) = Some mp" by (auto split: option.splits)
        with O \<open>mp k = Some d\<close> obtain u where u: "fst (prog u) = k" "owns (thr s u) d"
          by blast
        then have "u \<noteq> t" using new(1) by auto
        with other u show ?thesis by auto
      qed
    qed
  next
    case (crit2 c)
    show ?thesis unfolding inv_owner_def
    proof (intro allI impI)
      fix mp' k d assume a: "m (grp s') = Some mp' \<and> mp' k = Some d"
      then obtain mp where mp: "m (grp s) = Some mp" "mp' = mp(fst (prog t) := None)"
        using crit2(3) by (auto split: option.splits)
      with a have k: "k \<noteq> fst (prog t)" "mp k = Some d" by (auto split: if_splits)
      with O mp(1) obtain u where u: "fst (prog u) = k" "owns (thr s u) d" by blast
      then have "u \<noteq> t" using k(1) by auto
      with other u show "\<exists>t. fst (prog t) = k \<and> owns (thr s' t) d" by auto
    qed
  qed
qed

lemma inv_key_step:
  assumes i: "inv_sys s" and o: "inv_owner prog s" and ky: "inv_key prog s"
    and st: "step prog t s = Some s'"
  shows "inv_key prog s'"
proof -
  have hb: "c < length (mem s)" if "holds (thr s u) c" for u c
    using holds_bound[OF i that] .
  have O: "\<exists>u. fst (prog u) = k \<and> owns (thr s u) c" if "m (grp s) = Some mp" "mp k = Some c"
    for mp k c
    using o that unfolding inv_owner_def by blast
  have K1: "fst (prog a) = fst (prog b)" if "holds (thr s a) c" "holds (thr s b) c" for a b c
    using ky that unfolding inv_key_def by blast
  have K2: "fst (prog a) = k" if "m (grp s) = Some mp" "mp k = Some c" "holds (thr s a) c"
    for mp k c a
    using ky that unfolding inv_key_def by blast
  have mtx: "mu (grp s)" if "incrit (thr s u)" for u
    using i that by (auto simp: inv_sys_def inv_mutex_def)
  have other: "thr s' u = thr s u" if "u \<noteq> t" for u
    using step_thr_other[OF st that] .
  have keep: "inv_key prog s'"
    if k1: "\<And>c. holds (thr s' t) c \<Longrightarrow> holds (thr s t) c"
      and k2: "\<And>mp k c. m (grp s') = Some mp \<Longrightarrow> mp k = Some c \<Longrightarrow>
             \<exists>mp0. m (grp s) = Some mp0 \<and> mp0 k = Some c"
  proof -
    have bk: "holds (thr s u) c" if "holds (thr s' u) c" for u c
      using that k1 other[of u] by (cases "u = t") auto
    show ?thesis unfolding inv_key_def
    proof (intro conjI allI impI)
      fix a b c assume "holds (thr s' a) c \<and> holds (thr s' b) c"
      then show "fst (prog a) = fst (prog b)" using bk K1 by blast
    next
      fix mp k c a assume a: "m (grp s') = Some mp \<and> mp k = Some c \<and> holds (thr s' a) c"
      with k2 obtain mp0 where "m (grp s) = Some mp0" "mp0 k = Some c" by blast
      with a bk K2 show "fst (prog a) = k" by blast
    qed
  qed
  from st show ?thesis
  proof (cases rule: step_cases)
    case call
    then show ?thesis by (intro keep) auto
  next
    case lock1
    then show ?thesis by (intro keep) auto
  next
    case crit1_panic
    with mtx[of t] show ?thesis by simp
  next
    case (wait c)
    then show ?thesis by (intro keep) auto
  next
    case (fn c v e w)
    then show ?thesis by (intro keep) auto
  next
    case (done_panic c)
    with busy_wg[OF i, of t c] show ?thesis by simp
  next
    case (finish c)
    then show ?thesis by (intro keep) auto
  next
    case (lock2 c)
    then show ?thesis by (intro keep) auto
  next
    case (crit2_panic c)
    with mtx[of t] show ?thesis by simp
  next
    case (return c)
    then show ?thesis by (intro keep) auto
  next
    case (crit2 c)
    then show ?thesis by (intro keep) (auto split: option.splits if_splits)
  next
    case (found mp c)
    have ms: "m (grp s) = Some mp" using found(3,4) by (auto split: option.splits)
    have hs: "holds (thr s' u) d \<longleftrightarrow> (if u = t then d = c else holds (thr s u) d)" for u d
      using found(5) by auto
    have kc: "fst (prog u) = fst (prog t)" if "holds (thr s u) c" for u
      using K2[OF ms found(4) that] .
    show ?thesis unfolding inv_key_def
    proof (intro conjI allI impI)
      fix a b d assume h: "holds (thr s' a) d \<and> holds (thr s' b) d"
      have ha: "fst (prog u) = fst (prog t)" if "holds (thr s' u) d" "holds (thr s' t) d" for u
      proof (cases "u = t")
        case True
        then show ?thesis by simp
      next
        case False
        from that(2) hs[of t d] have "d = c" by simp
        with that(1) hs[of u d] False have "holds (thr s u) c" by simp
        then show ?thesis by (rule kc)
      qed
      show "fst (prog a) = fst (prog b)"
      proof (cases "a = t \<or> b = t")
        case True
        then show ?thesis
        proof
          assume "a = t"
          with h ha[of b] show ?thesis by simp
        next
          assume "b = t"
          with h ha[of a] show ?thesis by simp
        qed
      next
        case False
        with h hs[of a d] hs[of b d] have "holds (thr s a) d" "holds (thr s b) d" by simp_all
        then show ?thesis by (rule K1)
      qed
    next
      fix mp' k d a assume a: "m (grp s') = Some mp' \<and> mp' k = Some d \<and> holds (thr s' a) d"
      then have e: "mp k = Some d" using found(5) by auto
      show "fst (prog a) = k"
      proof (cases "a = t")
        case False
        with a hs[of a d] have "holds (thr s a) d" by simp
        with K2[OF ms e] show ?thesis by blast
      next
        case True
        with a hs[of a d] have "d = c" by simp
        from O[OF ms e] obtain u where u: "fst (prog u) = k" "owns (thr s u) d" by blast
        then have "holds (thr s u) c" using owns_holds \<open>d = c\<close> by blast
        from kc[OF this] u(1) True show ?thesis by simp
      qed
    qed
  next
    case (new mp)
    let ?c = "length (mem s)"
    have hs: "holds (thr s' u) d \<longleftrightarrow> (if u = t then d = ?c else holds (thr s u) d)" for u d
      using new(5) by auto
    have fresh: "\<not> holds (thr s u) ?c" for u using hb[of u ?c] by auto
    show ?thesis unfolding inv_key_def
    proof (intro conjI allI impI)
      fix a b d assume h: "holds (thr s' a) d \<and> holds (thr s' b) d"
      show "fst (prog a) = fst (prog b)"
      proof (cases "a = t \<or> b = t")
        case True
        then have "d = ?c" using h hs[of a d] hs[of b d] by auto
        have "a = t"
        proof (rule ccontr)
          assume "a \<noteq> t"
          with h hs[of a d] \<open>d = ?c\<close> fresh[of a] show False by simp
        qed
        moreover have "b = t"
        proof (rule ccontr)
          assume "b \<noteq> t"
          with h hs[of b d] \<open>d = ?c\<close> fresh[of b] show False by simp
        qed
        ultimately show ?thesis by simp
      next
        case False
        with h hs[of a d] hs[of b d] have "holds (thr s a) d" "holds (thr s b) d" by simp_all
        then show ?thesis by (rule K1)
      qed
    next
      fix mp' k d a assume a: "m (grp s') = Some mp' \<and> mp' k = Some d \<and> holds (thr s' a) d"
      then have mp': "mp' = mp(fst (prog t) \<mapsto> ?c)" using new(5) by simp
      show "fst (prog a) = k"
      proof (cases "k = fst (prog t)")
        case True
        with a mp' have "d = ?c" by simp
        have "a = t"
        proof (rule ccontr)
          assume "a \<noteq> t"
          with a hs[of a d] \<open>d = ?c\<close> fresh[of a] show False by simp
        qed
        with True show ?thesis by simp
      next
        case False
        with a mp' have e: "mp k = Some d" by simp
        with new(3) have ms: "m (grp s) = Some mp" by (auto split: option.splits)
        from O[OF ms e] obtain u where "owns (thr s u) d" by blast
        then have "d < ?c" using hb owns_holds by blast
        with a hs[of a d] have "holds (thr s a) d" by (auto split: if_splits)
        with K2[OF ms e] show ?thesis by blast
      qed
    qed
  qed
qed

lemma inv_reg_step:
  assumes i: "inv_sys s" and g: "inv_reg prog s" and st: "step prog t s = Some s'"
  shows "inv_reg prog s'"
proof -
  have hb: "c < length (mem s)" if "holds (thr s u) c" for u c
    using holds_bound[OF i that] .
  have G1: "\<exists>mp. m (grp s) = Some mp \<and> mp (fst (prog a)) = Some c" if "owns (thr s a) c" for a c
    using g that unfolding inv_reg_def by blast
  have G2: "a = b" if "owns (thr s a) c" "owns (thr s b) c" for a b c
    using g that unfolding inv_reg_def by blast
  have mtx: "mu (grp s)" if "incrit (thr s u)" for u
    using i that by (auto simp: inv_sys_def inv_mutex_def)
  have other: "thr s' u = thr s u" if "u \<noteq> t" for u
    using step_thr_other[OF st that] .
  have keep: "inv_reg prog s'"
    if k1: "m (grp s') = m (grp s)" and k2: "\<And>c. owns (thr s' t) c \<Longrightarrow> owns (thr s t) c"
  proof -
    have bk: "owns (thr s u) c" if "owns (thr s' u) c" for u c
      using that k2 other[of u] by (cases "u = t") auto
    show ?thesis unfolding inv_reg_def k1
    proof (intro conjI allI impI)
      fix a c assume "owns (thr s' a) c"
      then have "owns (thr s a) c" by (rule bk)
      then show "\<exists>mp. m (grp s) = Some mp \<and> mp (fst (prog a)) = Some c" by (rule G1)
    next
      fix a b c assume "owns (thr s' a) c \<and> owns (thr s' b) c"
      then have "owns (thr s a) c" "owns (thr s b) c" using bk by blast+
      then show "a = b" by (rule G2)
    qed
  qed
  from st show ?thesis
  proof (cases rule: step_cases)
    case call
    then show ?thesis by (intro keep) auto
  next
    case lock1
    then show ?thesis by (intro keep) auto
  next
    case crit1_panic
    with mtx[of t] show ?thesis by simp
  next
    case (wait c)
    then show ?thesis by (intro keep) auto
  next
    case (fn c v e w)
    then show ?thesis by (intro keep) auto
  next
    case (done_panic c)
    with busy_wg[OF i, of t c] show ?thesis by simp
  next
    case (finish c)
    then show ?thesis by (intro keep) auto
  next
    case (lock2 c)
    then show ?thesis by (intro keep) auto
  next
    case (crit2_panic c)
    with mtx[of t] show ?thesis by simp
  next
    case (return c)
    then show ?thesis by (intro keep) auto
  next
    case (found mp c)
    have bk: "owns (thr s u) d \<and> u \<noteq> t" if "owns (thr s' u) d" for u d
      using that found(1,5) by (cases "u = t") auto
    show ?thesis unfolding inv_reg_def
    proof (intro conjI allI impI)
      fix a d assume "owns (thr s' a) d"
      then have "owns (thr s a) d" using bk by blast
      from G1[OF this] obtain mp0 where mp0: "m (grp s) = Some mp0" "mp0 (fst (prog a)) = Some d"
        by blast
      with found(3) have "mp = mp0" by simp
      with mp0(2) found(5) show "\<exists>mp. m (grp s') = Some mp \<and> mp (fst (prog a)) = Some d"
        by simp
    next
      fix a b d assume "owns (thr s' a) d \<and> owns (thr s' b) d"
      then have "owns (thr s a) d" "owns (thr s b) d" using bk by blast+
      then show "a = b" by (rule G2)
    qed
  next
    case (new mp)
    let ?c = "length (mem s)"
    have fresh: "\<not> owns (thr s u) ?c" for u using hb[of u ?c] owns_holds by blast
    have os: "owns (thr s' u) d \<longleftrightarrow> (if u = t then d = ?c else owns (thr s u) d)" for u d
      using new(5) by auto
    have ms: "m (grp s') = Some (mp(fst (prog t) \<mapsto> ?c))" using new(5) by simp
    show ?thesis unfolding inv_reg_def
    proof (intro conjI allI impI)
      fix a d assume o: "owns (thr s' a) d"
      show "\<exists>mp. m (grp s') = Some mp \<and> mp (fst (prog a)) = Some d"
      proof (cases "a = t")
        case True
        with o os[of a d] have "d = ?c" by simp
        with True ms show ?thesis by simp
      next
        case False
        with o os[of a d] have "owns (thr s a) d" by simp
        from G1[OF this] obtain mp0 where mp0: "m (grp s) = Some mp0"
          "mp0 (fst (prog a)) = Some d" by blast
        with new(3) have e: "mp = mp0" by simp
        with mp0(2) new(4) have "fst (prog a) \<noteq> fst (prog t)" by auto
        with mp0(2) e ms show ?thesis by simp
      qed
    next
      fix a b d assume o: "owns (thr s' a) d \<and> owns (thr s' b) d"
      show "a = b"
      proof (cases "a = t \<or> b = t")
        case True
        then have "d = ?c" using o os[of a d] os[of b d] by auto
        have "a = t"
        proof (rule ccontr)
          assume "a \<noteq> t"
          with o os[of a d] \<open>d = ?c\<close> fresh[of a] show False by simp
        qed
        moreover have "b = t"
        proof (rule ccontr)
          assume "b \<noteq> t"
          with o os[of b d] \<open>d = ?c\<close> fresh[of b] show False by simp
        qed
        ultimately show ?thesis by simp
      next
        case False
        with o os[of a d] os[of b d] have "owns (thr s a) d" "owns (thr s b) d" by simp_all
        then show ?thesis by (rule G2)
      qed
    qed
  next
    case (crit2 c)
    have bk: "owns (thr s u) d \<and> u \<noteq> t" if "owns (thr s' u) d" for u d
      using that crit2(1,3) by (cases "u = t") auto
    have ot: "owns (thr s t) c" using crit2(1) by simp
    from G1[OF ot] obtain mp0 where mp0: "m (grp s) = Some mp0" "mp0 (fst (prog t)) = Some c"
      by blast
    have ms: "m (grp s') = Some (mp0(fst (prog t) := None))" using crit2(3) mp0(1) by simp
    show ?thesis unfolding inv_reg_def
    proof (intro conjI allI impI)
      fix a d assume "owns (thr s' a) d"
      then have o: "owns (thr s a) d" "a \<noteq> t" using bk by blast+
      from G1[OF o(1)] mp0(1) have e: "mp0 (fst (prog a)) = Some d" by simp
      have "fst (prog a) \<noteq> fst (prog t)"
      proof
        assume "fst (prog a) = fst (prog t)"
        with e mp0(2) have "d = c" by simp
        with o(1) ot G2 have "a = t" by blast
        with o(2) show False by simp
      qed
      with e ms show "\<exists>mp. m (grp s') = Some mp \<and> mp (fst (prog a)) = Some d" by simp
    next
      fix a b d assume "owns (thr s' a) d \<and> owns (thr s' b) d"
      then have "owns (thr s a) d" "owns (thr s b) d" using bk by blast+
      then show "a = b" by (rule G2)
    qed
  qed
qed

lemma inv_prog_step:
  assumes "inv_sys s" "inv_prog prog s" "step prog t s = Some s'"
  shows "inv_prog prog s'"
  using assms inv_lock_step[of s prog t s'] inv_owner_step[of s prog t s']
    inv_key_step[of s prog t s'] inv_log_step[of s prog t s'] inv_reg_step[of s prog t s']
  by (simp add: inv_prog_def)

lemma inv_prog0: "inv_prog prog (sys0 w)"
  by (simp add: inv_prog_def inv_lock_def inv_owner_def inv_key_def inv_log_def inv_reg_def
      sys0_def)

lemma inv_all_exec:
  assumes "inv_sys s" "inv_prog prog s" "exec_sched prog sched s = Some s'"
  shows "inv_sys s' \<and> inv_prog prog s'"
  using assms
proof (induction sched arbitrary: s)
  case Nil
  then show ?case by simp
next
  case (Cons t ts)
  then obtain s1 where s1: "step prog t s = Some s1" "exec_sched prog ts s1 = Some s'"
    by (auto split: option.splits)
  from inv_sys_step[OF Cons.prems(1) s1(1)] inv_prog_step[OF Cons.prems(1,2) s1(1)]
    Cons.IH s1(2) show ?case by blast
qed

lemma reachable_inv:
  assumes "exec_sched prog sched (sys0 w) = Some s"
  shows "inv_sys s" "inv_prog prog s"
  using inv_all_exec[OF inv_sys0 inv_prog0 assms] by simp_all

subsection \<open>Progress, and a call that runs alone\<close>

lemma step_decreases:
  assumes "step prog t s = Some s'"
  shows "steps_left (thr s' t) < steps_left (thr s t)"
  using assms by (cases rule: step_cases) auto

lemma no_deadlock:
  assumes i: "inv_sys s" and p: "inv_prog prog s" and t: "in_progress (thr s t)"
  shows "\<exists>u. in_progress (thr s u) \<and> step prog u s \<noteq> None"
proof -
  have crit: "\<exists>u. in_progress (thr s u) \<and> step prog u s \<noteq> None" if "mu (grp s)"
  proof -
    from p that obtain u where u: "incrit (thr s u)" unfolding inv_prog_def inv_lock_def by blast
    then have "in_progress (thr s u)" by (cases "thr s u") auto
    moreover have "step prog u s \<noteq> None"
      using u by (cases "thr s u") (auto simp: step_def Let_def split: option.splits)
    ultimately show ?thesis by blast
  qed
  have self: ?thesis if "step prog t s \<noteq> None" using t that by blast
  show ?thesis
  proof (cases "thr s t")
    case NotCalled
    with t show ?thesis by simp
  next
    case AtLock1
    show ?thesis
    proof (cases "mu (grp s)")
      case True
      then show ?thesis by (rule crit)
    next
      case False
      with AtLock1 show ?thesis by (intro self) (simp add: step_def)
    qed
  next
    case InCrit1
    then show ?thesis by (intro self) (auto simp: step_def Let_def split: option.splits)
  next
    case (AtWait c)
    show ?thesis
    proof (cases "wg (mem s ! c) = 0")
      case True
      with AtWait show ?thesis by (intro self) (simp add: step_def)
    next
      case False
      have "c < length (mem s)" using holds_bound[OF i, of t c] AtWait by simp
      with i False obtain u where u: "busy (thr s u) c"
        unfolding inv_sys_def inv_record_def by (metis (full_types))
      then have "in_progress (thr s u)" by (cases "thr s u") auto
      moreover have "step prog u s \<noteq> None"
        using u by (cases "thr s u") (auto simp: step_def split: prod.splits)
      ultimately show ?thesis by blast
    qed
  next
    case (AtFn c)
    then show ?thesis by (intro self) (auto simp: step_def split: prod.splits)
  next
    case (AtDone c)
    then show ?thesis by (intro self) (auto simp: step_def)
  next
    case (AtLock2 c)
    show ?thesis
    proof (cases "mu (grp s)")
      case True
      then show ?thesis by (rule crit)
    next
      case False
      with AtLock2 show ?thesis by (intro self) (simp add: step_def)
    qed
  next
    case (InCrit2 c)
    then show ?thesis by (intro self) (auto simp: step_def)
  next
    case (AtReturn c)
    then show ?thesis by (intro self) (auto simp: step_def)
  next
    case (Returned c v e)
    with t show ?thesis by simp
  next
    case Panicked
    with t show ?thesis by simp
  qed
qed

lemma idle_group:
  assumes i: "inv_sys s" and p: "inv_prog prog s" and q: "\<forall>u. \<not> in_progress (thr s u)"
  shows "\<not> mu (grp s)" and "registered s = {}"
proof -
  show "\<not> mu (grp s)"
  proof
    assume "mu (grp s)"
    with p obtain u where "incrit (thr s u)" unfolding inv_prog_def inv_lock_def by blast
    then have "in_progress (thr s u)" by (cases "thr s u") auto
    with q show False by blast
  qed
  show "registered s = {}"
  proof (rule ccontr)
    assume "registered s \<noteq> {}"
    then obtain k where "k \<in> registered s" by blast
    then obtain mp c where "m (grp s) = Some mp" "mp k = Some c"
      by (auto simp: registered_def split: option.splits)
    with p obtain u where "owns (thr s u) c" unfolding inv_prog_def inv_owner_def by blast
    then have "in_progress (thr s u)" by (cases "thr s u") auto
    with q show False by blast
  qed
qed

lemma exec_sched_append:
  "exec_sched prog (a @ b) s =
     (case exec_sched prog a s of None \<Rightarrow> None | Some s1 \<Rightarrow> exec_sched prog b s1)"
  by (induction a arbitrary: s) (auto split: option.splits)

lemma Do_alone:
  assumes t: "thr s t = NotCalled" and l: "\<not> mu (grp s)"
    and k: "fst (prog t) \<notin> registered s" and f: "snd (prog t) (env s) = ((v, e), w)"
  shows "\<exists>s'. Do prog t s = Some s' \<and> exec_sched prog (replicate 8 t) s = Some s' \<and>
           thr s' = (thr s)(t := Returned (length (mem s)) v e) \<and> env s' = w \<and>
           fn_log s' = fn_log s @ [(t, length (mem s), v, e)] \<and>
           \<not> mu (grp s') \<and> registered s' = registered s"
proof -
  let ?mp = "case m (grp s) of None \<Rightarrow> Map.empty | Some mp \<Rightarrow> mp"
  let ?c = "length (mem s)"
  have mk: "?mp (fst (prog t)) = None"
    using k by (auto simp: registered_def split: option.splits)
  define s1 where "s1 = s\<lparr>thr := (thr s)(t := AtLock1)\<rparr>"
  define s2 where "s2 = s1\<lparr>grp := (grp s1)\<lparr>mu := True\<rparr>, thr := (thr s1)(t := InCrit1)\<rparr>"
  define s3 where "s3 = s2\<lparr>grp := \<lparr>mu = False, m = Some (?mp(fst (prog t) \<mapsto> ?c))\<rparr>,
              mem := mem s @ [new_call], thr := (thr s2)(t := AtFn ?c)\<rparr>"
  define s4 where "s4 = s3\<lparr>mem := set_result ?c v e (mem s3), env := w,
              fn_log := fn_log s @ [(t, ?c, v, e)], thr := (thr s3)(t := AtDone ?c)\<rparr>"
  define s5 where "s5 = s4\<lparr>mem := wg_Done ?c (mem s4), thr := (thr s4)(t := AtLock2 ?c)\<rparr>"
  define s6 where "s6 = s5\<lparr>grp := (grp s5)\<lparr>mu := True\<rparr>, thr := (thr s5)(t := InCrit2 ?c)\<rparr>"
  define s7 where "s7 = s6\<lparr>grp := \<lparr>mu = False, m = Some (?mp(fst (prog t) := None))\<rparr>,
              thr := (thr s6)(t := AtReturn ?c)\<rparr>"
  define s8 where "s8 = s7\<lparr>thr := (thr s7)(t := Returned ?c v e)\<rparr>"
  have 1: "step prog t s = Some s1" using t by (simp add: step_def s1_def)
  have 2: "step prog t s1 = Some s2" using l by (simp add: step_def s1_def s2_def)
  have 3: "step prog t s2 = Some s3"
    using mk by (simp add: step_def s1_def s2_def s3_def Let_def)
  have 4: "step prog t s3 = Some s4"
    using f by (simp add: step_def s1_def s2_def s3_def s4_def)
  have 5: "step prog t s4 = Some s5"
    by (simp add: step_def s1_def s2_def s3_def s4_def s5_def)
  have 6: "step prog t s5 = Some s6"
    by (simp add: step_def s1_def s2_def s3_def s4_def s5_def s6_def)
  have 7: "step prog t s6 = Some s7"
    by (simp add: step_def s1_def s2_def s3_def s4_def s5_def s6_def s7_def)
  have 8: "step prog t s7 = Some s8"
    by (simp add: step_def s1_def s2_def s3_def s4_def s5_def s6_def s7_def s8_def)
  have p: "thr s1 t = AtLock1" "thr s2 t = InCrit1" "thr s3 t = AtFn ?c" "thr s4 t = AtDone ?c"
    "thr s5 t = AtLock2 ?c" "thr s6 t = InCrit2 ?c" "thr s7 t = AtReturn ?c"
    "thr s8 t = Returned ?c v e"
    by (simp_all add: s1_def s2_def s3_def s4_def s5_def s6_def s7_def s8_def)
  have d: "Do prog t s = Some s8"
    by (simp add: Do_def eval_nat_numeral t p 1 2 3 4 5 6 7 8)
  have x: "exec_sched prog (replicate 8 t) s = Some s8"
    by (simp add: eval_nat_numeral 1 2 3 4 5 6 7 8)
  have r: "registered s8 = registered s"
    using mk by (auto simp: registered_def s8_def s7_def split: option.splits if_splits)
  have "thr s8 = (thr s)(t := Returned ?c v e)" "env s8 = w"
    "fn_log s8 = fn_log s @ [(t, ?c, v, e)]" "\<not> mu (grp s8)"
    by (simp_all add: s1_def s2_def s3_def s4_def s5_def s6_def s7_def s8_def)
  with d x r show ?thesis by blast
qed

subsection \<open>What the locked block does\<close>

lemma holds_exec:
  assumes "inv_sys s" "exec_sched prog sched s = Some s'" "holds (thr s t) c"
  shows "holds (thr s' t) c"
  using assms
proof (induction sched arbitrary: s)
  case Nil
  then show ?case by simp
next
  case (Cons u us)
  then obtain s1 where s1: "step prog u s = Some s1" "exec_sched prog us s1 = Some s'"
    by (auto split: option.splits)
  from inv_sys_step[OF Cons.prems(1) s1(1)] step_holds[OF Cons.prems(1) s1(1) Cons.prems(3)]
    Cons.IH s1(2) show ?case by blast
qed

lemma crit1_joins:
  assumes i: "inv_sys s" and p: "inv_prog prog s"
    and t: "thr s t = InCrit1" and o: "owns (thr s t0) d" and k: "fst (prog t) = fst (prog t0)"
  shows "\<exists>s'. step prog t s = Some s' \<and> thr s' t = AtWait d \<and> fn_log s' = fn_log s \<and>
           mem s' = mem s \<and> env s' = env s"
proof -
  have "incrit (thr s t)" using t by simp
  with i have l: "mu (grp s)" unfolding inv_sys_def inv_mutex_def by blast
  from p o obtain mp where "m (grp s) = Some mp" "mp (fst (prog t0)) = Some d"
    unfolding inv_prog_def inv_reg_def by blast
  with t l k show ?thesis by (simp add: step_def Let_def)
qed

lemma crit1_registers:
  assumes i: "inv_sys s" and p: "inv_prog prog s"
    and t: "thr s t = InCrit1"
    and n: "\<forall>u d. owns (thr s u) d \<longrightarrow> fst (prog u) \<noteq> fst (prog t)"
  shows "\<exists>s' mp. step prog t s = Some s' \<and> thr s' t = AtFn (length (mem s)) \<and>
           m (grp s') = Some mp \<and> mp (fst (prog t)) = Some (length (mem s))"
proof -
  have "incrit (thr s t)" using t by simp
  with i have l: "mu (grp s)" unfolding inv_sys_def inv_mutex_def by blast
  let ?mp = "case m (grp s) of None \<Rightarrow> Map.empty | Some mp \<Rightarrow> mp"
  have "?mp (fst (prog t)) = None"
  proof (rule ccontr)
    assume "?mp (fst (prog t)) \<noteq> None"
    then obtain mp d where "m (grp s) = Some mp" "mp (fst (prog t)) = Some d"
      by (auto split: option.splits)
    with p obtain u where "fst (prog u) = fst (prog t)" "owns (thr s u) d"
      unfolding inv_prog_def inv_owner_def by blast
    with n show False by blast
  qed
  with t l show ?thesis by (simp add: step_def Let_def)
qed

subsection \<open>The claims about \<^verbatim>\<open>Do\<close>\<close>

lemmas sf_eval = step_def Let_def sys0_def new_call_def set_result_def wg_Done_def
  count_prog_def count_fn_def fail_first_prog_def fail_fn_def view2_def

text \<open>
  Claim C4, as the code has it.  In every state that any interleaving of any number of
  calls reaches:

  \<^item> the calls that have returned from one call record \<open>c\<close> all called \<^verbatim>\<open>Do\<close> with
    one key and returned the same pair; \<^verbatim>\<open>fn\<close> was executed exactly once for the record,
    by the call \<open>t0\<close>, that execution produced the pair, and none of these calls
    executed \<^verbatim>\<open>fn\<close> otherwise;
  \<^item> a call that runs its locked block while a call with the same key owns a record
    (has registered it and not yet deleted it) takes that record and waits, executing
    nothing;
  \<^item> a call that runs its locked block while no call with its key owns a record
    registers a new record under its key and is about to execute \<^verbatim>\<open>fn\<close> itself;
  \<^item> a call about to execute \<^verbatim>\<open>fn\<close> executes its own \<^verbatim>\<open>fn\<close> on the world as it is;
  \<^item> a record is registered under the key of its owner for as long as it is owned;
  \<^item> a call that refers to a record refers to it ever after, so it returns from it;
  \<^item> as long as a call is in progress some call in progress can move (each for at most
    eight steps, \<open>step_decreases\<close>), and nothing panics.
\<close>

theorem Do_shared_record:
  assumes run: "exec_sched prog sched (sys0 w) = Some s"
  shows "((\<forall>t\<in>T. \<exists>v e. thr s t = Returned c v e) \<and> T \<noteq> {} \<longrightarrow>
          (\<exists>t0 v e. runs_for c s = [(t0, c, v, e)] \<and>
             (\<exists>w0. fst (snd (prog t0) w0) = (v, e)) \<and>
             (\<forall>t\<in>T. thr s t = Returned c v e \<and> fst (prog t) = fst (prog t0)) \<and>
             (\<forall>r\<in>set (fn_log s). fst r \<in> T \<longrightarrow> r = (t0, c, v, e)))) \<and>
         (\<forall>t t0 d. thr s t = InCrit1 \<and> owns (thr s t0) d \<and> fst (prog t) = fst (prog t0) \<longrightarrow>
            (\<exists>s'. step prog t s = Some s' \<and> thr s' t = AtWait d \<and> fn_log s' = fn_log s \<and>
                  mem s' = mem s \<and> env s' = env s)) \<and>
         (\<forall>t. thr s t = InCrit1 \<and> (\<forall>u d. owns (thr s u) d \<longrightarrow> fst (prog u) \<noteq> fst (prog t)) \<longrightarrow>
            (\<exists>s' mp. step prog t s = Some s' \<and> thr s' t = AtFn (length (mem s)) \<and>
                  m (grp s') = Some mp \<and> mp (fst (prog t)) = Some (length (mem s)))) \<and>
         (\<forall>t d v e w'. thr s t = AtFn d \<and> snd (prog t) (env s) = ((v, e), w') \<longrightarrow>
            (\<exists>s'. step prog t s = Some s' \<and> thr s' t = AtDone d \<and>
                  fn_log s' = fn_log s @ [(t, d, v, e)] \<and> env s' = w')) \<and>
         (\<forall>t d. owns (thr s t) d \<longrightarrow>
            (\<exists>mp. m (grp s) = Some mp \<and> mp (fst (prog t)) = Some d)) \<and>
         (\<forall>t d sched' s'. holds (thr s t) d \<and> exec_sched prog sched' s = Some s' \<longrightarrow>
            holds (thr s' t) d) \<and>
         (\<forall>t. in_progress (thr s t) \<longrightarrow> (\<exists>u. in_progress (thr s u) \<and> step prog u s \<noteq> None)) \<and>
         (\<forall>t. thr s t \<noteq> Panicked)"
proof (intro conjI impI)
  note i = reachable_inv[OF run]
  show "\<forall>t. thr s t \<noteq> Panicked" using i(1) by (simp add: inv_sys_def inv_mutex_def)
  show "\<forall>t. in_progress (thr s t) \<longrightarrow> (\<exists>u. in_progress (thr s u) \<and> step prog u s \<noteq> None)"
    using no_deadlock[OF i] by blast
  show "\<forall>t t0 d. thr s t = InCrit1 \<and> owns (thr s t0) d \<and> fst (prog t) = fst (prog t0) \<longrightarrow>
            (\<exists>s'. step prog t s = Some s' \<and> thr s' t = AtWait d \<and> fn_log s' = fn_log s \<and>
                  mem s' = mem s \<and> env s' = env s)"
    using crit1_joins[OF i] by blast
  show "\<forall>t. thr s t = InCrit1 \<and> (\<forall>u d. owns (thr s u) d \<longrightarrow> fst (prog u) \<noteq> fst (prog t)) \<longrightarrow>
            (\<exists>s' mp. step prog t s = Some s' \<and> thr s' t = AtFn (length (mem s)) \<and>
                  m (grp s') = Some mp \<and> mp (fst (prog t)) = Some (length (mem s)))"
    using crit1_registers[OF i] by blast
  show "\<forall>t d v e w'. thr s t = AtFn d \<and> snd (prog t) (env s) = ((v, e), w') \<longrightarrow>
            (\<exists>s'. step prog t s = Some s' \<and> thr s' t = AtDone d \<and>
                  fn_log s' = fn_log s @ [(t, d, v, e)] \<and> env s' = w')"
    by (simp add: step_def)
  show "\<forall>t d. owns (thr s t) d \<longrightarrow>
            (\<exists>mp. m (grp s) = Some mp \<and> mp (fst (prog t)) = Some d)"
    using i(2) unfolding inv_prog_def inv_reg_def by blast
  show "\<forall>t d sched' s'. holds (thr s t) d \<and> exec_sched prog sched' s = Some s' \<longrightarrow>
            holds (thr s' t) d"
    using holds_exec[OF i(1)] by blast
  assume a: "(\<forall>t\<in>T. \<exists>v e. thr s t = Returned c v e) \<and> T \<noteq> {}"
  then obtain t1 v e where t1: "t1 \<in> T" "thr s t1 = Returned c v e" by blast
  from returned_result[OF i(1) t1(2)] obtain t0 where r: "runs_for c s = [(t0, c, v, e)]"
    by blast
  then have "(t0, c, v, e) \<in> set (runs_for c s)" by simp
  then have inlog: "(t0, c, v, e) \<in> set (fn_log s)" by (simp add: runs_for_def)
  with i(2) have h0: "holds (thr s t0) c" and w0: "\<exists>w0. fst (snd (prog t0) w0) = (v, e)"
    unfolding inv_prog_def inv_log_def by force+
  have all: "thr s t = Returned c v e \<and> fst (prog t) = fst (prog t0)" if "t \<in> T" for t
  proof -
    from a that obtain v' e' where t': "thr s t = Returned c v' e'" by blast
    from returned_result[OF i(1) this] r have "v' = v" "e' = e" by auto
    moreover have "holds (thr s t) c" using t' by simp
    with h0 i(2) have "fst (prog t) = fst (prog t0)"
      unfolding inv_prog_def inv_key_def by blast
    ultimately show ?thesis using t' by simp
  qed
  have only: "x = (t0, c, v, e)" if "x \<in> set (fn_log s)" "fst x \<in> T" for x
  proof -
    from i(2) that(1) have "holds (thr s (fst x)) (fst (snd x))"
      unfolding inv_prog_def inv_log_def by blast
    moreover have "thr s (fst x) = Returned c v e" using all[OF that(2)] by simp
    ultimately have "fst (snd x) = c" by simp
    with that(1) have "x \<in> set (runs_for c s)" by (simp add: runs_for_def)
    with r show ?thesis by simp
  qed
  from r w0 all only
  show "\<exists>t0 v e. runs_for c s = [(t0, c, v, e)] \<and>
             (\<exists>w0. fst (snd (prog t0) w0) = (v, e)) \<and>
             (\<forall>t\<in>T. thr s t = Returned c v e \<and> fst (prog t) = fst (prog t0)) \<and>
             (\<forall>r\<in>set (fn_log s). fst r \<in> T \<longrightarrow> r = (t0, c, v, e))"
    by blast
qed

text \<open>
  Claim C4 for three calls with one key: call 0 runs its locked block when nobody owns a
  record and registers record 0; call 1 runs its locked block while call 0 owns the
  record and takes it; at the end all three have returned what the one execution of
  \<^verbatim>\<open>fn\<close> returned.
\<close>

theorem Do_shared_record_witness:
  "\<exists>s1 s2 s3 s1' s2'.
     exec_sched count_prog [0, 0] (sys0 0) = Some s1 \<and> thr s1 0 = InCrit1 \<and>
     step count_prog 0 s1 = Some s1' \<and> thr s1' 0 = AtFn 0 \<and> ''k'' \<in> registered s1' \<and>
     exec_sched count_prog [0, 0, 0, 1, 1] (sys0 0) = Some s2 \<and>
     thr s2 0 = AtFn 0 \<and> thr s2 1 = InCrit1 \<and>
     step count_prog 1 s2 = Some s2' \<and> thr s2' 1 = AtWait 0 \<and> fn_log s2' = fn_log s2 \<and>
     exec_sched count_prog [0, 0, 0, 1, 1, 1, 2, 2, 2, 0, 0, 0, 0, 0, 1, 1, 2, 2] (sys0 0) = Some s3 \<and>
     (\<forall>t\<in>{0, 1, 2}. thr s3 t = Returned 0 (Some 1) None) \<and>
     fn_log s3 = [(0, 0, Some 1, None)] \<and> env s3 = 1 \<and>
     runs_for 0 s3 = [(0, 0, Some 1, None)] \<and>
     (\<forall>t. thr s3 t \<noteq> Panicked)"
proof -
  let ?sched = "[0, 0, 0, 1, 1, 1, 2, 2, 2, 0, 0, 0, 0, 0, 1, 1, 2, 2] :: nat list"
  have "\<exists>s. exec_sched count_prog [0, 0] (sys0 0) = Some s \<and>
          thr s = (\<lambda>t. NotCalled)(0 := InCrit1) \<and> mem s = []"
    by (simp add: sf_eval)
  then obtain s1 where s1: "exec_sched count_prog [0, 0] (sys0 0) = Some s1"
    "thr s1 = (\<lambda>t. NotCalled)(0 := InCrit1)" "mem s1 = []"
    by blast
  have "\<not> owns (thr s1 u) d" for u d using s1(2) by (cases "u = 0") simp_all
  then have h1: "thr s1 0 = InCrit1 \<and>
      (\<forall>u d. owns (thr s1 u) d \<longrightarrow> fst (count_prog u) \<noteq> fst (count_prog 0))"
    using s1(2) by simp
  note J2 = Do_shared_record[OF s1(1), of "{}" 0, THEN conjunct2, THEN conjunct2, THEN conjunct1]
  from J2[THEN spec, of 0, THEN mp, OF h1] obtain s1' mp where
    s1': "step count_prog 0 s1 = Some s1'" "thr s1' 0 = AtFn (length (mem s1))"
      "m (grp s1') = Some mp" "mp (fst (count_prog 0)) = Some (length (mem s1))"
    by blast
  have r1: "''k'' \<in> registered s1'"
    using s1'(3,4) by (auto simp: registered_def count_prog_def)
  have "\<exists>s. exec_sched count_prog [0, 0, 0, 1, 1] (sys0 0) = Some s \<and>
          thr s 0 = AtFn 0 \<and> thr s 1 = InCrit1"
    by (simp add: sf_eval)
  then obtain s2 where s2: "exec_sched count_prog [0, 0, 0, 1, 1] (sys0 0) = Some s2"
    "thr s2 0 = AtFn 0" "thr s2 1 = InCrit1"
    by blast
  have h2: "thr s2 1 = InCrit1 \<and> owns (thr s2 0) 0 \<and> fst (count_prog 1) = fst (count_prog 0)"
    using s2 by (simp add: count_prog_def)
  note J1 = Do_shared_record[OF s2(1), of "{}" 0, THEN conjunct2, THEN conjunct1]
  from J1[THEN spec, of 1, THEN spec, of 0, THEN spec, of 0, THEN mp, OF h2] obtain s2' where
    s2': "step count_prog 1 s2 = Some s2'" "thr s2' 1 = AtWait 0" "fn_log s2' = fn_log s2"
    by blast
  have "\<exists>s. exec_sched count_prog ?sched (sys0 0) = Some s \<and>
          thr s 0 = Returned 0 (Some 1) None \<and> thr s 1 = Returned 0 (Some 1) None \<and>
          thr s 2 = Returned 0 (Some 1) None \<and> fn_log s = [(0, 0, Some 1, None)] \<and> env s = 1"
    by (simp add: sf_eval)
  then obtain s where s: "exec_sched count_prog ?sched (sys0 0) = Some s"
    "thr s 0 = Returned 0 (Some 1) None" "thr s 1 = Returned 0 (Some 1) None"
    "thr s 2 = Returned 0 (Some 1) None" "fn_log s = [(0, 0, Some 1, None)]" "env s = 1"
    by blast
  have h: "(\<forall>t\<in>{0, 1, 2}. \<exists>v e. thr s t = Returned 0 v e) \<and> {0, 1, 2} \<noteq> ({} :: nat set)"
    using s(2-4) by simp
  note th = Do_shared_record[OF s(1), of "{0, 1, 2}" 0]
  from th[THEN conjunct1, THEN mp, OF h]
  have "\<exists>t0 v e. runs_for 0 s = [(t0, 0, v, e)]" by blast
  moreover from th have p: "\<forall>t. thr s t \<noteq> Panicked" by (elim conjE)
  ultimately have "\<exists>t0 v e. runs_for 0 s = [(t0, 0, v, e)]" by simp
  then have rf: "runs_for 0 s = [(0, 0, Some 1, None)]" using s(5) by (simp add: runs_for_def)
  have a: "\<forall>t\<in>{0, 1, 2}. thr s t = Returned 0 (Some 1) None" using s(2-4) by simp
  from s1(1) h1 s1'(1,2) s1(3) r1 s2 s2' s(1) a s(5,6) rf p show ?thesis
    by (intro exI[of _ s1] exI[of _ s2] exI[of _ s] exI[of _ s1'] exI[of _ s2']) simp
qed

text \<open>
  Claim C4 as stated holds of every two calls with one key that overlap in time.  Here
  call 1 enters \<^verbatim>\<open>Do\<close> while call 0 is between \<^verbatim>\<open>c.wg.Done()\<close> and its second
  \<^verbatim>\<open>g.mu.Lock()\<close>; call 0 takes the lock first and call 1 waits for it, both calls in
  progress.  When call 1 gets the lock the record is gone, so it registers a record of its
  own and executes \<^verbatim>\<open>fn\<close> again: two executions, and the calls return 1 and 2.
\<close>

theorem Do_overlap_counterexample:
  "view2 (exec_sched count_prog [0, 0, 0, 0, 0, 1, 0] (sys0 0)) =
     Some (InCrit2 0, AtLock1, 1, 1) \<and>
   view2 (exec_sched count_prog [0, 0, 0, 0, 0, 1, 0, 0, 1, 1, 0, 1, 1, 1, 1, 1] (sys0 0)) =
     Some (Returned 0 (Some 1) None, Returned 1 (Some 2) None, 2, 2)"
  by (simp add: sf_eval)

text \<open>
  Claim C6.  A call of \<^verbatim>\<open>Do\<close> made when no call is in progress executes its
  \<^verbatim>\<open>fn\<close> exactly once and returns the pair that execution produced, value or error
  alike; when it has returned, no record is registered and the lock is free, and again no
  call is in progress, so that the next call with the same key does the same with its own
  \<^verbatim>\<open>fn\<close>.
\<close>

theorem Do_sequential:
  assumes reach: "exec_sched prog sched (sys0 w0) = Some s"
    and idle: "\<forall>u. \<not> in_progress (thr s u)"
    and t: "thr s t = NotCalled"
    and f: "snd (prog t) (env s) = ((v, e), w)"
  shows "\<exists>s'. Do prog t s = Some s' \<and> thr s' t = Returned (length (mem s)) v e \<and> env s' = w \<and>
           fn_log s' = fn_log s @ [(t, length (mem s), v, e)] \<and>
           registered s' = {} \<and> \<not> mu (grp s') \<and>
           (\<forall>u. u \<noteq> t \<longrightarrow> thr s' u = thr s u) \<and> (\<forall>u. \<not> in_progress (thr s' u)) \<and>
           exec_sched prog (sched @ replicate 8 t) (sys0 w0) = Some s'"
proof -
  note i = reachable_inv[OF reach]
  note g = idle_group[OF i idle]
  have k: "fst (prog t) \<notin> registered s" using g(2) by simp
  from Do_alone[of s t prog v e w, OF t g(1) k f] obtain s' where
    s': "Do prog t s = Some s'" "exec_sched prog (replicate 8 t) s = Some s'"
      "thr s' = (thr s)(t := Returned (length (mem s)) v e)" "env s' = w"
      "fn_log s' = fn_log s @ [(t, length (mem s), v, e)]"
      "\<not> mu (grp s')" "registered s' = registered s"
    by blast
  have "exec_sched prog (sched @ replicate 8 t) (sys0 w0) = Some s'"
    using reach s'(2) by (simp add: exec_sched_append)
  moreover have "\<forall>u. \<not> in_progress (thr s' u)" using idle s'(3) by simp
  moreover have "\<forall>u. u \<noteq> t \<longrightarrow> thr s' u = thr s u" using s'(3) by simp
  moreover have "thr s' t = Returned (length (mem s)) v e" using s'(3) by simp
  ultimately show ?thesis using s' g(2) by auto
qed

text \<open>
  Claim C6 for two calls with one key, one after the other: the first \<^verbatim>\<open>fn\<close> fails,
  and the second call executes its \<^verbatim>\<open>fn\<close> and returns its value.
\<close>

theorem Do_sequential_witness:
  "exec_sched fail_first_prog [] (sys0 0) = Some (sys0 0) \<and>
   (\<forall>u. \<not> in_progress (thr (sys0 0 :: (nat, string, nat) sys) u)) \<and>
   thr (sys0 0 :: (nat, string, nat) sys) 0 = NotCalled \<and>
   snd (fail_first_prog 0) (env (sys0 0 :: (nat, string, nat) sys)) = ((None, Some ''boom''), 1) \<and>
   view2 (Do fail_first_prog 0 (sys0 0)) = Some (Returned 0 None (Some ''boom''), NotCalled, 1, 1) \<and>
   view2 (exec_sched fail_first_prog (replicate 8 0 @ replicate 8 1) (sys0 0)) =
     Some (Returned 0 None (Some ''boom''), Returned 1 (Some 2) None, 2, 2)"
proof -
  let ?s = "sys0 0 :: (nat, string, nat) sys"
  have r: "exec_sched fail_first_prog [] ?s = Some ?s" by simp
  have q: "\<forall>u. \<not> in_progress (thr ?s u)" by (simp add: sys0_def)
  have t: "thr ?s 0 = NotCalled" by (simp add: sys0_def)
  have f: "snd (fail_first_prog 0) (env ?s) = ((None, Some ''boom''), 1)"
    by (simp add: fail_first_prog_def fail_fn_def sys0_def)
  from Do_sequential[OF r q t f] obtain s' where
    s': "Do fail_first_prog 0 ?s = Some s'" "thr s' 0 = Returned (length (mem ?s)) None (Some ''boom'')"
      "env s' = 1" "fn_log s' = fn_log ?s @ [(0, length (mem ?s), None, Some ''boom'')]"
      "\<forall>u. u \<noteq> 0 \<longrightarrow> thr s' u = thr ?s u"
    by blast
  have 1: "view2 (Do fail_first_prog 0 ?s) = Some (Returned 0 None (Some ''boom''), NotCalled, 1, 1)"
    unfolding s'(1) using s'(2-5) by (simp add: view2_def sys0_def)
  have 2: "view2 (exec_sched fail_first_prog (replicate 8 0 @ replicate 8 1) ?s) =
     Some (Returned 0 None (Some ''boom''), Returned 1 (Some 2) None, 2, 2)"
    by (simp add: sf_eval eval_nat_numeral)
  from r q t f 1 2 show ?thesis by blast
qed

end
